theory Spec2Isabelle
  imports Main "HOL-Library.Sublist" "HOL-Library.AList"
begin

section \<open>The data of FirefoxSyncXHRPolyfix.js\<close>

text \<open>
  The polyfix is one closure over a handful of variables (\<open>XHRStateSpoofs\<close>,
  \<open>openSyncXHRs\<close>, \<open>unblockingEvents\<close>, \<open>currentlyBlockingOnSyncXHRs\<close>,
  \<open>mustUnblockEventsNow\<close>, \<open>currentlyBlockedEvents\<close>, one \<open>currentHandler\<close> per
  \<open>on*\<close> property) and the functions it installs on \<open>XMLHttpRequest.prototype\<close> and on
  \<open>window\<close>. The variables become the fields of a record; every installed function becomes
  a function from state to state. Requests and windows are object identities. Numbers are
  integers. The calls of the optional \<open>debug\<close> hook change nothing and are left out, as
  are the probe \<open>polyfixNeeded\<close> and the lookup \<open>findProperty\<close>, which run before the
  polyfix is installed. \<open>addEventListener\<close> hands the host a function made by
  \<open>wrapHandler\<close>, like the \<open>on*\<close> setters; the host calling such a function is the
  action \<open>Fire\<close> below.
\<close>

type_synonym xhr = nat
type_synonym wnd = nat

text \<open>The JavaScript values that reach the polyfix as arguments.\<close>

datatype jsval =
    Undefined
  | Null
  | JBool bool
  | JNum int
  | JStr string
  | Arguments "jsval list"
  | Event (evType: string) (evLoaded: "nat option")

text \<open>JavaScript's conversion to a boolean, as \<open>!x\<close> and \<open>x && y\<close> use it.\<close>

fun truthy :: "jsval \<Rightarrow> bool" where
  "truthy Undefined = False"
| "truthy Null = False"
| "truthy (JBool b) = b"
| "truthy (JNum n) = (n \<noteq> 0)"
| "truthy (JStr s) = (s \<noteq> [])"
| "truthy (Arguments _) = True"
| "truthy (Event _ _) = True"

text \<open>\<open>arguments[i]\<close>: reading past the end gives \<open>undefined\<close>.\<close>

definition arg :: "jsval list \<Rightarrow> nat \<Rightarrow> jsval" where
  "arg arguments i = (if i < length arguments then arguments ! i else Undefined)"

datatype exn = TypeError | HostError | Thrown nat

text \<open>
  What the page and the host do is a script of actions. A handler the page supplies is
  \<open>null\<close>, or an object that may be callable (it has a body run by \<open>handler.apply\<close>) and may
  have a \<open>handleEvent\<close> method (with a body of its own). A body is again a script, so a
  handler can open and send requests, post messages, assign handlers and read state.
  \<open>Open\<close>, \<open>Send\<close> and \<open>PostMessage\<close> are calls of the patched functions with their
  arguments. \<open>Send\<close> also carries what the host's own send does before it returns: the
  events and microtasks the host lets run meanwhile, and whether it throws. \<open>Tick\<close> is
  the scheduler running the oldest pending microtask (a function handed to
  \<open>Promise.resolve().then\<close>). \<open>Fire x h type args\<close> is the host calling the function
  \<open>wrapHandler(h, type)\<close> returned, with \<open>this = x\<close> and the arguments \<open>args\<close>;
  \<open>FireSlot evt x args\<close> is the host calling what the slot \<open>"on" + evt\<close> of \<open>x\<close> holds.
  \<open>SetOn\<close> and \<open>GetOn\<close> assign and read an \<open>on*\<close> property, \<open>GetReadyState\<close> and
  \<open>GetResponseText\<close> read through the patched getters, \<open>HostUpdate x stage type text\<close>
  is the host changing the live stage, response type and response text of \<open>x\<close>, and
  \<open>Throw\<close> raises an exception.
\<close>

datatype action =
    Open xhr "jsval list"
  | Send xhr "jsval list" "action list" bool
  | PostMessage wnd "jsval list"
  | Tick
  | Fire xhr handler string "jsval list"
  | FireSlot string xhr "jsval list"
  | SetOn string xhr handler
  | GetOn string xhr
  | GetReadyState xhr
  | GetResponseText xhr
  | HostUpdate xhr nat string string
  | Throw nat
and handler =
    HNull
  | Handler (hid: nat) (applyBody: "action list option") (handleEventBody: "action list option")

datatype spoofName = ReadyState | ResponseTextLength

text \<open>
  The object kept per request in \<open>XHRStateSpoofs\<close>: its properties in the order they were
  first assigned. Reading a property that is absent or was set to \<open>undefined\<close> gives
  \<open>undefined\<close> (\<open>None\<close>).
\<close>

type_synonym spoofObject = "(spoofName \<times> nat option) list"

definition getProperty :: "spoofObject \<Rightarrow> spoofName \<Rightarrow> nat option" where
  "getProperty c name = (case map_of c name of Some v \<Rightarrow> v | None \<Rightarrow> None)"

definition setProperty :: "spoofName \<Rightarrow> nat option \<Rightarrow> spoofObject \<Rightarrow> spoofObject" where
  "setProperty name v c = AList.update name v c"

text \<open>
  A blocked event is a closure pushed on \<open>currentlyBlockedEvents\<close>: either the
  \<open>wrappedHandler\<close> of \<open>wrapHandler\<close> (over \<open>xhr\<close>, \<open>spoofs\<close>, \<open>handler\<close>, \<open>args\<close>, with its
  \<open>description\<close>: type, readyState, isSync) or the inner \<open>postMessage\<close> closure (over
  \<open>wnd\<close>, \<open>args\<close>).
\<close>

datatype closure =
    WrappedHandler xhr "(spoofName \<times> nat option) list" handler "jsval list" "string \<times> nat \<times> bool"
  | PostMessageClosure wnd "jsval list"

datatype thisv = ThisXHR xhr | ThisUndefined | ThisHandler

datatype callKind = ViaApply | ViaHandleEvent

text \<open>
  The trace is what can be observed from outside: the calls into the host's own functions
  with their arguments, every call of a page handler with its \<open>this\<close> and arguments, the
  values the page reads, errors the host reports, and the traffic of the queue (push,
  shift-and-call, return of the call, replacement by a new array).
\<close>

datatype event =
    HostOpen xhr "jsval list"
  | HostSend xhr "jsval list"
  | HostPostMessage wnd "jsval list"
  | Invoked nat callKind thisv "jsval list"
  | Queued closure
  | Unblocking closure
  | Finished closure
  | QueueReset
  | Saw jsval
  | SawHandler "handler option"
  | Uncaught exn

datatype microtask = UnblockTask | PostMessageTask wnd "jsval list"

record hostxhr =
  h_readyState :: nat
  h_responseType :: string
  h_responseText :: string

text \<open>
  The state. The two WeakMaps, the \<open>currentHandler\<close> variables (one per property name)
  and the host's side (the live requests and their \<open>on*\<close> slots, each holding the function
  \<open>wrapHandler(handler, name)\<close> as the pair of its arguments) are tables keyed by identity:
  \<open>map_of\<close> looks a key up, \<open>AList.update\<close> sets it.
\<close>

record state =
  XHRStateSpoofs :: "(xhr \<times> spoofObject) list"
  openSyncXHRs :: "xhr set"
  unblockingEvents :: bool
  currentlyBlockingOnSyncXHRs :: int
  mustUnblockEventsNow :: bool
  currentlyBlockedEvents :: "closure list option"
  currentHandler :: "(string \<times> handler) list"
  host :: "(xhr \<times> hostxhr) list"
  nativeSlot :: "((string \<times> xhr) \<times> handler \<times> string) list"
  microtasks :: "microtask list"
  trace :: "event list"

text \<open>
  The state right after the script has installed itself: no spoofs and no synchronous
  request recorded, \<open>unblockingEvents = false\<close>, \<open>currentlyBlockingOnSyncXHRs = 0\<close>,
  \<open>mustUnblockEventsNow = false\<close>, \<open>currentlyBlockedEvents\<close> and every \<open>currentHandler\<close>
  still \<open>undefined\<close>.
\<close>

definition init :: state where
  "init = \<lparr> XHRStateSpoofs = [], openSyncXHRs = {}, unblockingEvents = False,
             currentlyBlockingOnSyncXHRs = 0, mustUnblockEventsNow = False,
             currentlyBlockedEvents = None, currentHandler = [],
             host = [], nativeSlot = [], microtasks = [], trace = [] \<rparr>"

text \<open>The live request: a request the host has not touched yet is unsent and empty.\<close>

definition live :: "state \<Rightarrow> xhr \<Rightarrow> hostxhr" where
  "live s x =
     (case map_of (host s) x of
        Some h \<Rightarrow> h
      | None \<Rightarrow> \<lparr> h_readyState = 0, h_responseType = [], h_responseText = [] \<rparr>)"

definition log :: "event \<Rightarrow> state \<Rightarrow> state" where
  "log e s = s\<lparr> trace := trace s @ [e] \<rparr>"

text \<open>
  A call returns the state it leaves and the exception it raised, if any (JavaScript keeps
  the assignments made before a throw). \<open>None\<close> is a computation cut off by the bound on
  its depth.
\<close>

type_synonym outcome = "state \<times> exn option"
type_synonym runner = "action list \<Rightarrow> state \<Rightarrow> outcome option"

fun andThen :: "outcome option \<Rightarrow> (state \<Rightarrow> outcome option) \<Rightarrow> outcome option" where
  "andThen None f = None"
| "andThen (Some (s, Some e)) f = Some (s, Some e)"
| "andThen (Some (s, None)) f = f s"

section \<open>State spoofing (lines 80-125)\<close>

text \<open>
  \<open>spoofXHRState(xhr, values)\<close>: create the entry if missing, then copy every property
  of \<open>values\<close>.
\<close>

definition spoofXHRState :: "xhr \<Rightarrow> (spoofName \<times> nat option) list \<Rightarrow> state \<Rightarrow> state" where
  "spoofXHRState x values s =
     (let s1 = (if map_of (XHRStateSpoofs s) x = None
                then s\<lparr> XHRStateSpoofs := AList.update x [] (XHRStateSpoofs s) \<rparr> else s);
          currentSpoofs = (case map_of (XHRStateSpoofs s1) x of Some c \<Rightarrow> c | None \<Rightarrow> [])
      in s1\<lparr> XHRStateSpoofs :=
               AList.update x (fold (\<lambda>(name, v) c. setProperty name v c) values currentSpoofs)
                 (XHRStateSpoofs s1) \<rparr>)"

text \<open>The host's own getters read the live request.\<close>

definition oldXHRRS :: "state \<Rightarrow> xhr \<Rightarrow> nat" where
  "oldXHRRS s x = h_readyState (live s x)"

definition oldXHRRT :: "state \<Rightarrow> xhr \<Rightarrow> string" where
  "oldXHRRT s x = h_responseText (live s x)"

text \<open>
  The \<open>readyState\<close> getter: \<open>return override || oldXHRRS.call(this)\<close>. For a number,
  \<open>||\<close> takes the right-hand side when the left is \<open>undefined\<close> and also when it is 0.
\<close>

definition readyState :: "state \<Rightarrow> xhr \<Rightarrow> nat" where
  "readyState s x =
     (let override = (case map_of (XHRStateSpoofs s) x of
                        Some c \<Rightarrow> getProperty c ReadyState | None \<Rightarrow> None)
      in case override of
           Some v \<Rightarrow> if v \<noteq> 0 then v else oldXHRRS s x
         | None \<Rightarrow> oldXHRRS s x)"

text \<open>
  The \<open>responseText\<close> getter. \<open>text.substr(0, length)\<close> is the first \<open>length\<close>
  characters, or all of \<open>text\<close> when it is shorter.
\<close>

definition responseText :: "state \<Rightarrow> xhr \<Rightarrow> string" where
  "responseText s x =
     (let text = oldXHRRT s x
      in case map_of (XHRStateSpoofs s) x of
           Some c \<Rightarrow>
             (case getProperty c ResponseTextLength of
                Some len \<Rightarrow> if len = length text then text else take len text
              | None \<Rightarrow> text)
         | None \<Rightarrow> text)"

section \<open>\<open>open\<close> (lines 131-140)\<close>

definition oldXHROpen :: "xhr \<Rightarrow> jsval list \<Rightarrow> state \<Rightarrow> state" where
  "oldXHROpen x arguments s = log (HostOpen x arguments) s"

definition "open" :: "xhr \<Rightarrow> jsval list \<Rightarrow> state \<Rightarrow> state" where
  "open x arguments s =
     oldXHROpen x arguments
       (if length arguments > 2 \<and> \<not> truthy (arg arguments 2)
        then s\<lparr> openSyncXHRs := insert x (openSyncXHRs s) \<rparr> else s)"

section \<open>Calling a page handler\<close>

text \<open>
  \<open>handler.handleEvent(args)\<close> passes the arguments object as the one argument;
  \<open>handler.apply(this, args)\<close> spreads it. Either raises a TypeError on \<open>null\<close>;
  \<open>apply\<close> raises it on an object that is not callable.
\<close>

definition has_handleEvent :: "handler \<Rightarrow> bool" where
  "has_handleEvent h = (case h of HNull \<Rightarrow> False | Handler _ _ hb \<Rightarrow> hb \<noteq> None)"

definition call_handleEvent :: "runner \<Rightarrow> handler \<Rightarrow> jsval list \<Rightarrow> state \<Rightarrow> outcome option" where
  "call_handleEvent ex h args s =
     (case h of
        HNull \<Rightarrow> Some (s, Some TypeError)
      | Handler i _ hb \<Rightarrow>
          (case hb of
             None \<Rightarrow> Some (s, Some TypeError)
           | Some body \<Rightarrow> ex body (log (Invoked i ViaHandleEvent ThisHandler [Arguments args]) s)))"

definition call_apply :: "runner \<Rightarrow> handler \<Rightarrow> thisv \<Rightarrow> jsval list \<Rightarrow> state \<Rightarrow> outcome option" where
  "call_apply ex h this args s =
     (case h of
        HNull \<Rightarrow> Some (s, Some TypeError)
      | Handler i ab _ \<Rightarrow>
          (case ab of
             None \<Rightarrow> Some (s, Some TypeError)
           | Some body \<Rightarrow> ex body (log (Invoked i ViaApply this args) s)))"

section \<open>\<open>wrapHandler\<close> (lines 241-292)\<close>

text \<open>
  The closure \<open>wrappedHandler\<close>, as the drain calls it (\<open>evt()\<close>, so \<open>this\<close> is
  \<open>undefined\<close>): install the spoofs, call \<open>handleEvent\<close> if the handler has one, then
  \<open>handler.apply\<close> in every case, then reset the spoofs.
\<close>

definition wrappedHandler ::
  "runner \<Rightarrow> xhr \<Rightarrow> (spoofName \<times> nat option) list \<Rightarrow> handler \<Rightarrow> jsval list \<Rightarrow> state \<Rightarrow> outcome option"
where
  "wrappedHandler ex x spoofs h args s =
     (let s1 = spoofXHRState x spoofs s in
      if h = HNull then Some (s1, Some TypeError)
      else
        andThen (if has_handleEvent h then call_handleEvent ex h args s1 else Some (s1, None))
          (\<lambda>s2. andThen (call_apply ex h ThisUndefined args s2)
            (\<lambda>s3. Some (spoofXHRState x [(ReadyState, None), (ResponseTextLength, None)] s3, None))))"

text \<open>
  \<open>currentlyBlockedEvents.push(c)\<close>: a TypeError while the variable is still
  \<open>undefined\<close>.
\<close>

definition push :: "closure \<Rightarrow> state \<Rightarrow> outcome" where
  "push c s =
     (case currentlyBlockedEvents s of
        None \<Rightarrow> (s, Some TypeError)
      | Some q \<Rightarrow> (log (Queued c) (s\<lparr> currentlyBlockedEvents := Some (q @ [c]) \<rparr>), None))"

text \<open>The spoofs \<open>wrapHandler\<close> computes when the host calls the wrapper.\<close>

definition spoofsFor :: "state \<Rightarrow> xhr \<Rightarrow> jsval list \<Rightarrow> (spoofName \<times> nat option) list" where
  "spoofsFor s x args =
     (let rs = readyState s x;
          responseType = h_responseType (live s x)
      in (ReadyState, Some rs) #
         (if responseType = [] \<or> responseType = ''text''
          then [(ResponseTextLength,
                 if rs < 3 then Some 0
                 else if truthy (arg args 0) \<and>
                         (case arg args 0 of Event ty _ \<Rightarrow> ty = ''progress'' | _ \<Rightarrow> False)
                 then (case arg args 0 of Event _ loaded \<Rightarrow> loaded | _ \<Rightarrow> None)
                 else Some (length (responseText s x)))]
          else []))"

text \<open>
  The function \<open>wrapHandler(handler, type)\<close> returns, called with \<open>this = x\<close> and
  \<open>arguments = args\<close>.
\<close>

definition wrapHandler ::
  "runner \<Rightarrow> handler \<Rightarrow> string \<Rightarrow> xhr \<Rightarrow> jsval list \<Rightarrow> state \<Rightarrow> outcome option"
where
  "wrapHandler ex h type x args s =
     (let spoofs = spoofsFor s x args;
          isSync = (x \<in> openSyncXHRs s);
          description = (type, readyState s x, isSync)
      in if \<not> isSync \<and> currentlyBlockingOnSyncXHRs s \<noteq> 0
         then Some (push (WrappedHandler x spoofs h args description) s)
         else if h = HNull then Some (s, Some TypeError)
         else if has_handleEvent h then call_handleEvent ex h args s
         else call_apply ex h (ThisXHR x) args s)"

section \<open>\<open>unblockEventsIfNecessary\<close> (lines 142-159)\<close>

definition callClosure :: "runner \<Rightarrow> closure \<Rightarrow> state \<Rightarrow> outcome option" where
  "callClosure ex c s =
     (case c of
        WrappedHandler x spoofs h args _ \<Rightarrow> wrappedHandler ex x spoofs h args s
      | PostMessageClosure w args \<Rightarrow> Some (log (HostPostMessage w args) s, None))"

text \<open>
  The \<open>while\<close> loop: as long as the array (read from the variable anew each time) is not
  empty, shift its first closure and call it. An exception leaves the loop.
\<close>

fun drainLoop :: "runner \<Rightarrow> nat \<Rightarrow> state \<Rightarrow> outcome option" where
  "drainLoop ex 0 s = None"
| "drainLoop ex (Suc k) s =
     (case currentlyBlockedEvents s of
        None \<Rightarrow> Some (s, Some TypeError)
      | Some [] \<Rightarrow> Some (s, None)
      | Some (evt # q) \<Rightarrow>
          andThen (callClosure ex evt (log (Unblocking evt) (s\<lparr> currentlyBlockedEvents := Some q \<rparr>)))
            (\<lambda>s1. drainLoop ex k (log (Finished evt) s1)))"

text \<open>
  \<open>unblockEventsIfNecessary\<close>: nothing unless \<open>mustUnblockEventsNow\<close>; the flag is cleared,
  and unless \<open>unblockingEvents\<close> is set the loop runs between two assignments of \<open>true\<close>
  to \<open>unblockingEvents\<close> (lines 148 and 154), followed by the decrement of the depth.
  An exception in the loop skips what follows it.
\<close>

definition unblockEventsIfNecessary :: "runner \<Rightarrow> nat \<Rightarrow> state \<Rightarrow> outcome option" where
  "unblockEventsIfNecessary ex k s =
     (if mustUnblockEventsNow s then
        (let s1 = s\<lparr> mustUnblockEventsNow := False \<rparr> in
         if \<not> unblockingEvents s1 then
           andThen (drainLoop ex k (s1\<lparr> unblockingEvents := True \<rparr>))
             (\<lambda>s2. Some (s2\<lparr> unblockingEvents := True,
                              currentlyBlockingOnSyncXHRs := currentlyBlockingOnSyncXHRs s2 - 1 \<rparr>, None))
         else Some (s1, None))
      else Some (s, None))"

section \<open>\<open>send\<close> (lines 161-210)\<close>

text \<open>
  The host's own send: it is called with the arguments the polyfix hands over; while it
  blocks, the host runs the given events, each as a turn of its own (an error a handler
  raises there is reported, not passed to the caller of send); then it returns or throws.
\<close>

fun hostTurns :: "runner \<Rightarrow> action list \<Rightarrow> state \<Rightarrow> state option" where
  "hostTurns ex [] s = Some s"
| "hostTurns ex (a # as) s =
     (case ex [a] s of
        None \<Rightarrow> None
      | Some (s1, None) \<Rightarrow> hostTurns ex as s1
      | Some (s1, Some e) \<Rightarrow> hostTurns ex as (log (Uncaught e) s1))"

definition oldXHRSend ::
  "runner \<Rightarrow> xhr \<Rightarrow> jsval list \<Rightarrow> action list \<Rightarrow> bool \<Rightarrow> state \<Rightarrow> outcome option"
where
  "oldXHRSend ex x args during throws s =
     (case hostTurns ex during (log (HostSend x args) s) of
        None \<Rightarrow> None
      | Some s1 \<Rightarrow> Some (s1, if throws then Some HostError else None))"

definition send ::
  "runner \<Rightarrow> nat \<Rightarrow> xhr \<Rightarrow> jsval list \<Rightarrow> action list \<Rightarrow> bool \<Rightarrow> state \<Rightarrow> outcome option"
where
  "send ex k x arguments during throws s =
     (if x \<in> openSyncXHRs s then
        andThen (unblockEventsIfNecessary ex k s)
          (\<lambda>s1.
             let s2 = s1\<lparr> currentlyBlockingOnSyncXHRs := currentlyBlockingOnSyncXHRs s1 + 1 \<rparr>;
                 s3 = log QueueReset (s2\<lparr> currentlyBlockedEvents := Some [] \<rparr>)
             in case oldXHRSend ex x [] during throws s3 of
                  None \<Rightarrow> None
                | Some (s4, caughtException) \<Rightarrow>
                    let s5 = (if currentlyBlockingOnSyncXHRs s4 = 1
                              then s4\<lparr> mustUnblockEventsNow := True,
                                       microtasks := microtasks s4 @ [UnblockTask] \<rparr>
                              else s4)
                    in Some (s5, caughtException))
      else oldXHRSend ex x [Arguments arguments] during throws s)"

section \<open>\<open>postMessage\<close> (lines 217-235)\<close>

definition postMessage :: "wnd \<Rightarrow> jsval list \<Rightarrow> state \<Rightarrow> state" where
  "postMessage w args s = s\<lparr> microtasks := microtasks s @ [PostMessageTask w args] \<rparr>"

text \<open>The function handed to \<open>Promise.resolve().then\<close>, run one tick later.\<close>

definition postMessageTick :: "wnd \<Rightarrow> jsval list \<Rightarrow> state \<Rightarrow> outcome" where
  "postMessageTick w args s =
     (if currentlyBlockingOnSyncXHRs s \<noteq> 0
      then push (PostMessageClosure w args) s
      else (log (HostPostMessage w args) s, None))"

section \<open>The \<open>on*\<close> properties (lines 332-346)\<close>

definition handlerProps :: "string list" where
  "handlerProps = [''abort'', ''error'', ''load'', ''loadend'', ''loadstart'',
                   ''progress'', ''readystatechange'', ''timeout'']"

text \<open>
  The setter of \<open>"on" + evt\<close>: one variable \<open>currentHandler\<close> per property name, and the
  host's own setter called with a fresh \<open>wrapHandler(handler, name)\<close>. The getter returns
  that variable.
\<close>

definition setOn :: "string \<Rightarrow> xhr \<Rightarrow> handler \<Rightarrow> state \<Rightarrow> state" where
  "setOn evt x h s =
     s\<lparr> currentHandler := AList.update evt h (currentHandler s),
        nativeSlot := AList.update (evt, x) (h, ''on'' @ evt) (nativeSlot s) \<rparr>"

definition getOn :: "string \<Rightarrow> xhr \<Rightarrow> state \<Rightarrow> handler option" where
  "getOn evt x s = map_of (currentHandler s) evt"

section \<open>Running a script\<close>

definition step :: "runner \<Rightarrow> nat \<Rightarrow> action \<Rightarrow> state \<Rightarrow> outcome option" where
  "step ex k a s =
     (case a of
        Open x args \<Rightarrow> Some (open x args s, None)
      | Send x args during throws \<Rightarrow> send ex k x args during throws s
      | PostMessage w args \<Rightarrow> Some (postMessage w args s, None)
      | Tick \<Rightarrow>
          (case microtasks s of
             [] \<Rightarrow> Some (s, None)
           | UnblockTask # ts \<Rightarrow> unblockEventsIfNecessary ex k (s\<lparr> microtasks := ts \<rparr>)
           | PostMessageTask w args # ts \<Rightarrow> Some (postMessageTick w args (s\<lparr> microtasks := ts \<rparr>)))
      | Fire x h type args \<Rightarrow> wrapHandler ex h type x args s
      | FireSlot evt x args \<Rightarrow>
          (case map_of (nativeSlot s) (evt, x) of
             None \<Rightarrow> Some (s, None)
           | Some (h, name) \<Rightarrow> wrapHandler ex h name x args s)
      | SetOn evt x h \<Rightarrow> Some (if evt \<in> set handlerProps then setOn evt x h s else s, None)
      | GetOn evt x \<Rightarrow> Some (if evt \<in> set handlerProps then log (SawHandler (getOn evt x s)) s else s, None)
      | GetReadyState x \<Rightarrow> Some (log (Saw (JNum (int (readyState s x)))) s, None)
      | GetResponseText x \<Rightarrow> Some (log (Saw (JStr (responseText s x))) s, None)
      | HostUpdate x rs rty rtx \<Rightarrow>
          Some (s\<lparr> host := AList.update x
                   \<lparr> h_readyState = rs, h_responseType = rty, h_responseText = rtx \<rparr> (host s) \<rparr>, None)
      | Throw i \<Rightarrow> Some (s, Some (Thrown i)))"

text \<open>
  \<open>exec n script s\<close> runs a script; \<open>n\<close> bounds the nesting of calls and the number of
  steps in a row, and \<open>None\<close> means the bound was reached.
\<close>

primrec exec :: "nat \<Rightarrow> runner" where
  "exec 0 = (\<lambda>script s. None)"
| "exec (Suc n) =
     (\<lambda>script s. case script of
                    [] \<Rightarrow> Some (s, None)
                  | a # rest \<Rightarrow> andThen (step (exec n) n a s) (exec n rest))"

section \<open>Observations on traces\<close>

text \<open>
  The events a run adds to the trace, the replays among them (a closure shifted from the
  queue and called, a closure returned), the closures pushed, and the trace a queue
  leaves when each closure is called and returns before the next is called.
\<close>

definition newEvents :: "state \<Rightarrow> state \<Rightarrow> event list" where
  "newEvents s s' = drop (length (trace s)) (trace s')"

definition isReplay :: "event \<Rightarrow> bool" where
  "isReplay e = (case e of Unblocking _ \<Rightarrow> True | Finished _ \<Rightarrow> True | _ \<Rightarrow> False)"

definition replays :: "event list \<Rightarrow> event list" where
  "replays t = filter isReplay t"

definition queued :: "event list \<Rightarrow> closure list" where
  "queued t = concat (map (\<lambda>e. case e of Queued c \<Rightarrow> [c] | _ \<Rightarrow> []) t)"

definition inOrder :: "closure list \<Rightarrow> event list" where
  "inOrder cs = concat (map (\<lambda>c. [Unblocking c, Finished c]) cs)"

definition invocations :: "event list \<Rightarrow> event list" where
  "invocations t = filter (\<lambda>e. case e of Invoked _ _ _ _ \<Rightarrow> True | _ \<Rightarrow> False) t"

definition hostSends :: "event list \<Rightarrow> event list" where
  "hostSends t = filter (\<lambda>e. case e of HostSend _ _ \<Rightarrow> True | _ \<Rightarrow> False) t"

definition observed :: "event list \<Rightarrow> event list" where
  "observed t = filter (\<lambda>e. case e of Saw _ \<Rightarrow> True | SawHandler _ \<Rightarrow> True | _ \<Rightarrow> False) t"

text \<open>The queue as a list; the variable still \<open>undefined\<close> holds no closure.\<close>

definition qlist :: "state \<Rightarrow> closure list" where
  "qlist s = (case currentlyBlockedEvents s of None \<Rightarrow> [] | Some q \<Rightarrow> q)"

text \<open>
  What any call can do to a state in which \<open>unblockingEvents\<close> is set: the flag stays
  set, the depth does not go down, an array once assigned stays assigned, nothing is
  replayed, and the queue holds, in order, closures it held before and closures pushed
  meanwhile: all of them unless a synchronous send replaced the array.
\<close>

definition quiet :: "state \<Rightarrow> state \<Rightarrow> bool" where
  "quiet s s' =
     (unblockingEvents s' \<and>
      currentlyBlockingOnSyncXHRs s \<le> currentlyBlockingOnSyncXHRs s' \<and>
      (currentlyBlockedEvents s = None \<or> currentlyBlockedEvents s' \<noteq> None) \<and>
      (\<exists>new. trace s' = trace s @ new \<and> replays new = [] \<and>
         subseq (qlist s') (qlist s @ queued new) \<and>
         (QueueReset \<notin> set new \<longrightarrow>
            currentlyBlockedEvents s' = map_option (\<lambda>q. q @ queued new) (currentlyBlockedEvents s))))"

definition quietRunner :: "runner \<Rightarrow> bool" where
  "quietRunner ex =
     (\<forall>script s s' e. unblockingEvents s \<longrightarrow> ex script s = Some (s', e) \<longrightarrow> quiet s s')"

text \<open>
  What one pass of the loop over the queue \<open>q\<close> leaves, with \<open>cs\<close> the closures it called
  and \<open>rest\<close> the queue at its end: \<open>cs\<close> followed by \<open>rest\<close> keeps the order of \<open>q\<close>
  followed by the closures pushed meanwhile, and is all of them unless a synchronous send
  replaced the array. After a normal end every closure of \<open>cs\<close> was called and returned
  before the next, and the queue is empty; after an exception the last closure of \<open>cs\<close>
  was called and did not return.
\<close>

definition drained :: "closure list \<Rightarrow> event list \<Rightarrow> state \<Rightarrow> exn option \<Rightarrow> bool" where
  "drained q new s' e =
     (\<exists>cs rest. currentlyBlockedEvents s' = Some rest \<and>
        subseq (cs @ rest) (q @ queued new) \<and>
        (QueueReset \<notin> set new \<longrightarrow> cs @ rest = q @ queued new) \<and>
        (case e of
           None \<Rightarrow> replays new = inOrder cs \<and> rest = []
         | Some _ \<Rightarrow> cs \<noteq> [] \<and> replays new = butlast (inOrder cs)))"

text \<open>Closures that, when called, do nothing further.\<close>

fun inert :: "closure \<Rightarrow> bool" where
  "inert (PostMessageClosure w args) = True"
| "inert (WrappedHandler x spoofs h args d) =
     (case h of HNull \<Rightarrow> False | Handler i ab hb \<Rightarrow> ab = Some [] \<and> hb = None)"

section \<open>Concrete pages\<close>

definition openSync :: "jsval list" where
  "openSync = [JStr ''GET'', JStr ''/sync'', JBool False]"

definition openAsync :: "jsval list" where
  "openAsync = [JStr ''GET'', JStr ''/async'', JBool True]"

definition loadEvent :: jsval where
  "loadEvent = Event ''load'' None"

text \<open>Two plain functions that do nothing, an object with only a \<open>handleEvent\<close> method,
  and a function that also has a \<open>handleEvent\<close> property.\<close>

definition hA :: handler where
  "hA = Handler 1 (Some []) None"

definition hB :: handler where
  "hB = Handler 2 (Some []) None"

definition hObject :: handler where
  "hObject = Handler 3 None (Some [])"

definition hBoth :: handler where
  "hBoth = Handler 4 (Some []) (Some [])"

text \<open>The closure \<open>wrapHandler\<close> pushes for a \<open>load\<close> fired at a fresh request.\<close>

definition blocked :: "xhr \<Rightarrow> handler \<Rightarrow> jsval list \<Rightarrow> closure" where
  "blocked x h args =
     WrappedHandler x [(ReadyState, Some 0), (ResponseTextLength, Some 0)] h args (''load'', 0, False)"

text \<open>
  Two rounds: request 1 is sent synchronously; while the host blocks, a \<open>load\<close> of the
  asynchronous request 2 reaches \<open>hA\<close>; the scheduled turn runs; then the same again with
  \<open>hB\<close>.
\<close>

definition twoRounds :: "action list" where
  "twoRounds =
     [Open 1 openSync,
      Send 1 [] [Fire 2 hA ''load'' []] False, Tick,
      Send 1 [] [Fire 2 hB ''load'' []] False, Tick]"

text \<open>
  A nested send: while the synchronous request 1 blocks, two \<open>load\<close> events of request 2
  are queued; the handler of the first, when replayed, sends the synchronous request 3.
\<close>

definition hNested :: handler where
  "hNested = Handler 5 (Some [Send 3 [] [] False]) None"

definition nestedSend :: "action list" where
  "nestedSend =
     [Open 1 openSync, Open 3 openSync,
      Send 1 [] [Fire 2 hNested ''load'' [], Fire 2 hB ''load'' []] False, Tick, Tick]"

text \<open>
  A stale stage: while request 1 blocks, a \<open>load\<close> is dispatched at request 2, which is
  still unsent (stage 0); request 2 then completes (stage 4, response \<open>abc\<close>) before the
  drain; the replayed handler reads stage and text.
\<close>

definition hReads :: handler where
  "hReads = Handler 6 (Some [GetReadyState 2, GetResponseText 2]) None"

definition staleStage :: "action list" where
  "staleStage =
     [Open 1 openSync,
      Send 1 [] [Fire 2 hReads ''load'' [loadEvent], HostUpdate 2 4 [] ''abc''] False,
      Tick]"

text \<open>
  A first round: while request 1 blocks, request 2 receives its response in three steps
  (nothing yet, \<open>hello\<close>, \<open>helloworld\<close>) and fires two \<open>progress\<close> events and a \<open>load\<close>.
\<close>

definition progressRound :: "action list" where
  "progressRound =
     [Open 1 openSync,
      Send 1 []
        [HostUpdate 2 3 [] [], Fire 2 hReads ''progress'' [Event ''progress'' (Some 0)],
         HostUpdate 2 3 [] ''hello'', Fire 2 hReads ''progress'' [Event ''progress'' (Some 5)],
         HostUpdate 2 4 [] ''helloworld'', Fire 2 hReads ''load'' [loadEvent]] False,
      Tick]"

definition handleEventObjectDeferred :: "action list" where
  "handleEventObjectDeferred =
     [Open 1 openSync,
      Send 1 [] [Fire 2 hObject ''load'' [loadEvent], Fire 2 hA ''load'' [loadEvent]] False, Tick]"

definition handleEventFunctionDeferred :: "action list" where
  "handleEventFunctionDeferred =
     [Open 1 openSync, Send 1 [] [Fire 2 hBoth ''load'' [loadEvent]] False, Tick]"

definition sendsWithBody :: "action list" where
  "sendsWithBody =
     [Open 1 openSync, Send 1 [JStr ''body''] [] False,
      Open 2 openAsync, Send 2 [JStr ''body''] [] False]"

definition slotsOfTwoRequests :: "action list" where
  "slotsOfTwoRequests = [SetOn ''load'' 1 hA, SetOn ''load'' 2 hB, GetOn ''load'' 1]"

definition slotSetToNull :: "action list" where
  "slotSetToNull = [SetOn ''load'' 1 hA, SetOn ''load'' 1 HNull, FireSlot ''load'' 1 [loadEvent]]"

text \<open>
  A state in which a drain is due: a message was posted, request 1 was then sent
  synchronously, and while the host blocked a \<open>load\<close> of request 2 reached a handler and
  the turn of the posted message ran, so both were queued. The handler, when replayed,
  dispatches a \<open>load\<close> at request 3 to \<open>hB\<close>.
\<close>

definition hFires :: handler where
  "hFires = Handler 7 (Some [Fire 3 hB ''load'' []]) None"

definition dueFifo :: state where
  "dueFifo = fst (the (exec 8 [Open 1 openSync, PostMessage 0 [JStr ''hi''],
                               Send 1 [] [Fire 2 hFires ''load'' [], Tick] False] init))"

definition dueFifo' :: state where
  "dueFifo' = fst (the (unblockEventsIfNecessary (exec 4) 4 dueFifo))"

text \<open>The same with a handler that raises.\<close>

definition hRaises :: handler where
  "hRaises = Handler 8 (Some [Throw 7]) None"

definition dueRaise :: state where
  "dueRaise = fst (the (exec 8 [Open 1 openSync, PostMessage 0 [JStr ''hi''],
                                Send 1 [] [Fire 2 hRaises ''load'' [], Tick] False] init))"

definition dueRaise' :: state where
  "dueRaise' = fst (the (unblockEventsIfNecessary (exec 4) 4 dueRaise))"

text \<open>A later round, run after the drain that was cut short.\<close>

definition laterRound :: "action list" where
  "laterRound = [Tick, Send 1 [] [Fire 2 hA ''load'' []] False, Tick]"

definition dueRaise'' :: state where
  "dueRaise'' = fst (the (exec 8 laterRound dueRaise'))"

text \<open>
  The state of \<open>nestedSend\<close> when the send of request 1 has returned and its drain is
  due, and the state the drain leaves.
\<close>

definition dueNested :: state where
  "dueNested = fst (the (exec 10 (take 3 nestedSend) init))"

definition dueNested' :: state where
  "dueNested' = fst (the (unblockEventsIfNecessary (exec 6) 6 dueNested))"

text \<open>
  The state of \<open>twoRounds\<close> when the second send of request 1 has returned and its drain
  is due, and the state the call of \<open>unblockEventsIfNecessary\<close> leaves.
\<close>

definition dueSecondRound :: state where
  "dueSecondRound = fst (the (exec 10 (take 4 twoRounds) init))"

definition dueSecondRound' :: state where
  "dueSecondRound' = fst (the (unblockEventsIfNecessary (exec 6) 6 dueSecondRound))"

text \<open>Request 1 opened synchronously, in the middle of another synchronous send.\<close>

definition midSend :: state where
  "midSend = (open 1 openSync init)\<lparr> currentlyBlockingOnSyncXHRs := 1,
                                          currentlyBlockedEvents := Some [] \<rparr>"

section \<open>What a call can do while the guard is set\<close>

lemma replays_append [simp]: "replays (a @ b) = replays a @ replays b"
  by (simp add: replays_def)

lemma queued_append [simp]: "queued (a @ b) = queued a @ queued b"
  by (simp add: queued_def)

lemma replays_Nil [simp]: "replays [] = []"
  by (simp add: replays_def)

lemma queued_Nil [simp]: "queued [] = []"
  by (simp add: queued_def)

lemma quiet_guard: "quiet s s' \<Longrightarrow> unblockingEvents s'"
  by (simp add: quiet_def)

lemma quiet_same:
  assumes "unblockingEvents s'" "currentlyBlockingOnSyncXHRs s \<le> currentlyBlockingOnSyncXHRs s'"
    "trace s' = trace s" "currentlyBlockedEvents s' = currentlyBlockedEvents s"
  shows "quiet s s'"
proof -
  have "trace s' = trace s @ [] \<and> replays [] = [] \<and>
        subseq (qlist s') (qlist s @ queued []) \<and>
        (QueueReset \<notin> set [] \<longrightarrow>
          currentlyBlockedEvents s' = map_option (\<lambda>q. q @ queued []) (currentlyBlockedEvents s))"
    using assms by (simp add: option.map_ident qlist_def)
  moreover have "currentlyBlockedEvents s = None \<or> currentlyBlockedEvents s' \<noteq> None"
    using assms(4) by auto
  ultimately show ?thesis unfolding quiet_def using assms(1,2) by blast
qed

lemma quiet_refl: "unblockingEvents s \<Longrightarrow> quiet s s"
  by (rule quiet_same) simp_all

lemma quiet_trans:
  assumes "quiet s s1" "quiet s1 s2"
  shows "quiet s s2"
proof -
  from assms(1) obtain n1 where n1: "trace s1 = trace s @ n1" "replays n1 = []"
    "subseq (qlist s1) (qlist s @ queued n1)"
    "QueueReset \<notin> set n1 \<longrightarrow>
       currentlyBlockedEvents s1 = map_option (\<lambda>q. q @ queued n1) (currentlyBlockedEvents s)"
    unfolding quiet_def by blast
  from assms(2) obtain n2 where n2: "trace s2 = trace s1 @ n2" "replays n2 = []"
    "subseq (qlist s2) (qlist s1 @ queued n2)"
    "QueueReset \<notin> set n2 \<longrightarrow>
       currentlyBlockedEvents s2 = map_option (\<lambda>q. q @ queued n2) (currentlyBlockedEvents s1)"
    unfolding quiet_def by blast
  have "trace s2 = trace s @ (n1 @ n2)" using n1(1) n2(1) by simp
  moreover have "replays (n1 @ n2) = []" using n1(2) n2(2) by simp
  moreover have "subseq (qlist s2) (qlist s @ queued (n1 @ n2))"
  proof -
    have "subseq (qlist s1 @ queued n2) ((qlist s @ queued n1) @ queued n2)"
      using n1(3) by (rule list_emb_append_mono) simp
    with n2(3) have "subseq (qlist s2) ((qlist s @ queued n1) @ queued n2)"
      by (rule subseq_order.trans)
    then show ?thesis by simp
  qed
  moreover have "QueueReset \<notin> set (n1 @ n2) \<longrightarrow>
       currentlyBlockedEvents s2 = map_option (\<lambda>q. q @ queued (n1 @ n2)) (currentlyBlockedEvents s)"
    using n1(4) n2(4) by (cases "currentlyBlockedEvents s") auto
  moreover have "unblockingEvents s2"
    "currentlyBlockingOnSyncXHRs s \<le> currentlyBlockingOnSyncXHRs s2"
    "currentlyBlockedEvents s = None \<or> currentlyBlockedEvents s2 \<noteq> None"
    using assms unfolding quiet_def by auto
  ultimately show ?thesis unfolding quiet_def by blast
qed

lemma quiet_log:
  assumes "unblockingEvents s" "replays [e] = []" "queued [e] = []"
  shows "quiet s (log e s)"
proof -
  have "trace (log e s) = trace s @ [e] \<and> replays [e] = [] \<and>
        subseq (qlist (log e s)) (qlist s @ queued [e]) \<and>
        (QueueReset \<notin> set [e] \<longrightarrow>
          currentlyBlockedEvents (log e s) = map_option (\<lambda>q. q @ queued [e]) (currentlyBlockedEvents s))"
    using assms by (simp add: log_def option.map_ident qlist_def)
  moreover have "unblockingEvents (log e s)"
    "currentlyBlockingOnSyncXHRs s \<le> currentlyBlockingOnSyncXHRs (log e s)"
    "currentlyBlockedEvents s = None \<or> currentlyBlockedEvents (log e s) \<noteq> None"
    using assms(1) by (auto simp add: log_def)
  ultimately show ?thesis unfolding quiet_def by blast
qed

lemma quiet_push:
  assumes "unblockingEvents s" "push c s = (s', e)"
  shows "quiet s s'"
proof (cases "currentlyBlockedEvents s")
  case None
  then have "s' = s" using assms(2) by (simp add: push_def)
  then show ?thesis using assms(1) by (simp add: quiet_refl)
next
  case (Some q)
  then have s': "s' = log (Queued c) (s\<lparr> currentlyBlockedEvents := Some (q @ [c]) \<rparr>)"
    using assms(2) by (simp add: push_def)
  have "trace s' = trace s @ [Queued c] \<and> replays [Queued c] = [] \<and>
        subseq (qlist s') (qlist s @ queued [Queued c]) \<and>
        (QueueReset \<notin> set [Queued c] \<longrightarrow>
          currentlyBlockedEvents s' = map_option (\<lambda>q. q @ queued [Queued c]) (currentlyBlockedEvents s))"
    using Some by (simp add: s' log_def replays_def isReplay_def queued_def qlist_def)
  moreover have "unblockingEvents s'" "currentlyBlockingOnSyncXHRs s \<le> currentlyBlockingOnSyncXHRs s'"
    "currentlyBlockedEvents s = None \<or> currentlyBlockedEvents s' \<noteq> None"
    using assms(1) by (simp_all add: s' log_def)
  ultimately show ?thesis unfolding quiet_def by blast
qed

lemma quiet_reset:
  assumes "unblockingEvents s"
  shows "quiet s (log QueueReset (s\<lparr> currentlyBlockingOnSyncXHRs := currentlyBlockingOnSyncXHRs s + 1,
                                      currentlyBlockedEvents := Some [] \<rparr>))"
proof -
  let ?s' = "log QueueReset (s\<lparr> currentlyBlockingOnSyncXHRs := currentlyBlockingOnSyncXHRs s + 1,
                                      currentlyBlockedEvents := Some [] \<rparr>)"
  have "trace ?s' = trace s @ [QueueReset] \<and> replays [QueueReset] = [] \<and>
        subseq (qlist ?s') (qlist s @ queued [QueueReset]) \<and>
        (QueueReset \<notin> set [QueueReset] \<longrightarrow>
          currentlyBlockedEvents ?s' = map_option (\<lambda>q. q @ queued [QueueReset]) (currentlyBlockedEvents s))"
    by (simp add: log_def replays_def isReplay_def qlist_def)
  moreover have "unblockingEvents ?s'" "currentlyBlockingOnSyncXHRs s \<le> currentlyBlockingOnSyncXHRs ?s'"
    "currentlyBlockedEvents s = None \<or> currentlyBlockedEvents ?s' \<noteq> None"
    using assms by (simp_all add: log_def)
  ultimately show ?thesis unfolding quiet_def by blast
qed

lemma quiet_spoof:
  assumes "unblockingEvents s"
  shows "quiet s (spoofXHRState x values s)"
  by (rule quiet_same) (use assms in \<open>simp_all add: spoofXHRState_def Let_def\<close>)

lemma andThen_quiet:
  assumes "andThen r f = Some (s', e)"
    and "\<And>s1 e1. r = Some (s1, e1) \<Longrightarrow> quiet s s1"
    and "\<And>s1. r = Some (s1, None) \<Longrightarrow> quiet s1 s'"
  shows "quiet s s'"
proof (cases r)
  case None
  then show ?thesis using assms(1) by simp
next
  case (Some p)
  obtain s1 e1 where p: "p = (s1, e1)" by (cases p)
  show ?thesis
  proof (cases e1)
    case None
    have "quiet s s1" using assms(2) Some p by blast
    moreover have "quiet s1 s'" using assms(3) Some p None by blast
    ultimately show ?thesis by (rule quiet_trans)
  next
    case (Some x)
    then have "s' = s1" using assms(1) \<open>r = Some p\<close> p by simp
    then show ?thesis using assms(2) \<open>r = Some p\<close> p by blast
  qed
qed

lemma andThen_SomeD:
  assumes "andThen r f = Some (s', e)"
  obtains (stop) x where "r = Some (s', Some x)" "e = Some x"
        | (go) s1 where "r = Some (s1, None)" "f s1 = Some (s', e)"
proof (cases r)
  case None
  then show ?thesis using assms by simp
next
  case (Some p)
  obtain s1 e1 where p: "p = (s1, e1)" by (cases p)
  show ?thesis
  proof (cases e1)
    case None
    then show ?thesis using assms Some p go by simp
  next
    case (Some x)
    then show ?thesis using assms \<open>r = Some p\<close> p stop by auto
  qed
qed

lemma quietRunnerD: "quietRunner ex \<Longrightarrow> unblockingEvents s \<Longrightarrow> ex script s = Some (s', e) \<Longrightarrow> quiet s s'"
  unfolding quietRunner_def by blast

lemma inert_events [simp]:
  "replays [Invoked i m t a] = []" "queued [Invoked i m t a] = []"
  "replays [HostSend x a] = []" "queued [HostSend x a] = []"
  "replays [HostOpen x a] = []" "queued [HostOpen x a] = []"
  "replays [HostPostMessage w a] = []" "queued [HostPostMessage w a] = []"
  "replays [Saw v] = []" "queued [Saw v] = []"
  "replays [SawHandler h] = []" "queued [SawHandler h] = []"
  "replays [Uncaught x'] = []" "queued [Uncaught x'] = []"
  by (simp_all add: replays_def queued_def isReplay_def)

lemma quiet_call_handleEvent:
  assumes "quietRunner ex" "unblockingEvents s" "call_handleEvent ex h args s = Some (s', e)"
  shows "quiet s s'"
proof (cases h)
  case HNull
  then show ?thesis using assms by (simp add: call_handleEvent_def quiet_refl)
next
  case (Handler i ab hb)
  show ?thesis
  proof (cases hb)
    case None
    then show ?thesis using assms Handler by (simp add: call_handleEvent_def quiet_refl)
  next
    case (Some body)
    let ?s1 = "log (Invoked i ViaHandleEvent ThisHandler [Arguments args]) s"
    have "quiet s ?s1" using assms(2) by (simp add: quiet_log)
    moreover have "ex body ?s1 = Some (s', e)"
      using assms(3) Handler Some by (simp add: call_handleEvent_def)
    then have "quiet ?s1 s'" using assms(1) quiet_guard[OF calculation] by (rule_tac quietRunnerD)
    ultimately show ?thesis by (rule quiet_trans)
  qed
qed

lemma quiet_call_apply:
  assumes "quietRunner ex" "unblockingEvents s" "call_apply ex h this args s = Some (s', e)"
  shows "quiet s s'"
proof (cases h)
  case HNull
  then show ?thesis using assms by (simp add: call_apply_def quiet_refl)
next
  case (Handler i ab hb)
  show ?thesis
  proof (cases ab)
    case None
    then show ?thesis using assms Handler by (simp add: call_apply_def quiet_refl)
  next
    case (Some body)
    let ?s1 = "log (Invoked i ViaApply this args) s"
    have "quiet s ?s1" using assms(2) by (simp add: quiet_log)
    moreover have "ex body ?s1 = Some (s', e)"
      using assms(3) Handler Some by (simp add: call_apply_def)
    then have "quiet ?s1 s'" using assms(1) quiet_guard[OF calculation] by (rule_tac quietRunnerD)
    ultimately show ?thesis by (rule quiet_trans)
  qed
qed

lemma quiet_wrappedHandler:
  assumes "quietRunner ex" "unblockingEvents s" "wrappedHandler ex x spoofs h args s = Some (s', e)"
  shows "quiet s s'"
proof -
  let ?s1 = "spoofXHRState x spoofs s"
  have q1: "quiet s ?s1" using assms(2) by (rule quiet_spoof)
  show ?thesis
  proof (cases "h = HNull")
    case True
    then have "s' = ?s1" using assms(3) by (simp add: wrappedHandler_def Let_def)
    then show ?thesis using q1 by simp
  next
    case False
    let ?r = "if has_handleEvent h then call_handleEvent ex h args ?s1 else Some (?s1, None)"
    let ?f = "\<lambda>s2. andThen (call_apply ex h ThisUndefined args s2)
            (\<lambda>s3. Some (spoofXHRState x [(ReadyState, None), (ResponseTextLength, None)] s3, None))"
    have run: "andThen ?r ?f = Some (s', e)"
      using assms(3) False by (simp add: wrappedHandler_def Let_def)
    have r: "quiet ?s1 s1" if "?r = Some (s1, e1)" for s1 e1
      using that quiet_call_handleEvent[OF assms(1) quiet_guard[OF q1]] quiet_refl[OF quiet_guard[OF q1]]
      by (auto split: if_splits)
    have f: "quiet s1 s'" if "?r = Some (s1, None)" for s1
    proof -
      have g1: "unblockingEvents s1" using r[OF that] by (rule quiet_guard)
      have "?f s1 = Some (s', e)" using run that by simp
      then show ?thesis
      proof (rule andThen_quiet)
        fix s2 e2 assume "call_apply ex h ThisUndefined args s1 = Some (s2, e2)"
        then show "quiet s1 s2" using assms(1) g1 by (rule_tac quiet_call_apply)
      next
        fix s2 assume c: "call_apply ex h ThisUndefined args s1 = Some (s2, None)"
        have "quiet s1 s2" using assms(1) g1 c by (rule quiet_call_apply)
        then have g2: "unblockingEvents s2" by (rule quiet_guard)
        have "?f s1 = Some (spoofXHRState x [(ReadyState, None), (ResponseTextLength, None)] s2, None)"
          using c by simp
        then have "s' = spoofXHRState x [(ReadyState, None), (ResponseTextLength, None)] s2"
          using \<open>?f s1 = Some (s', e)\<close> by simp
        then show "quiet s2 s'" using g2 by (simp add: quiet_spoof)
      qed
    qed
    have "quiet ?s1 s'" using run r f by (rule andThen_quiet)
    with q1 show ?thesis by (rule quiet_trans)
  qed
qed

lemma quiet_wrapHandler:
  assumes "quietRunner ex" "unblockingEvents s" "wrapHandler ex h type x args s = Some (s', e)"
  shows "quiet s s'"
proof (cases "x \<notin> openSyncXHRs s \<and> currentlyBlockingOnSyncXHRs s \<noteq> 0")
  case True
  then have "push (WrappedHandler x (spoofsFor s x args) h args (type, readyState s x, x \<in> openSyncXHRs s)) s = (s', e)"
    using assms(3) by (simp add: wrapHandler_def Let_def)
  then show ?thesis using assms(2) by (rule_tac quiet_push)
next
  case False
  then have "(if h = HNull then Some (s, Some TypeError)
         else if has_handleEvent h then call_handleEvent ex h args s
         else call_apply ex h (ThisXHR x) args s) = Some (s', e)"
    using assms(3) by (auto simp add: wrapHandler_def Let_def)
  then show ?thesis
    using quiet_call_handleEvent[OF assms(1,2)] quiet_call_apply[OF assms(1,2)] quiet_refl[OF assms(2)]
    by (auto split: if_splits)
qed

lemma quiet_unblock:
  assumes "unblockingEvents s" "unblockEventsIfNecessary ex k s = Some (s', e)"
  shows "quiet s s'"
proof -
  have "s' = s \<or> s' = s\<lparr> mustUnblockEventsNow := False \<rparr>"
    using assms by (auto simp add: unblockEventsIfNecessary_def Let_def split: if_splits)
  then show ?thesis using assms(1) by (auto intro!: quiet_same)
qed

lemma quiet_hostTurns:
  assumes "quietRunner ex" "unblockingEvents s" "hostTurns ex during s = Some s'"
  shows "quiet s s'"
  using assms(2,3)
proof (induction during arbitrary: s)
  case Nil
  then show ?case by (simp add: quiet_refl)
next
  case (Cons a as)
  from Cons.prems(2) obtain s1 e1 where r: "ex [a] s = Some (s1, e1)"
    by (cases "ex [a] s") auto
  have q1: "quiet s s1" using assms(1) Cons.prems(1) r by (rule quietRunnerD)
  show ?case
  proof (cases e1)
    case None
    then have "hostTurns ex as s1 = Some s'" using Cons.prems(2) r by simp
    then have "quiet s1 s'" using Cons.IH quiet_guard[OF q1] by blast
    with q1 show ?thesis by (rule quiet_trans)
  next
    case (Some x)
    let ?s2 = "log (Uncaught x) s1"
    have q2: "quiet s1 ?s2" using quiet_guard[OF q1] by (simp add: quiet_log)
    have "hostTurns ex as ?s2 = Some s'" using Cons.prems(2) r Some by simp
    then have "quiet ?s2 s'" using Cons.IH quiet_guard[OF q2] by blast
    with q1 q2 show ?thesis by (blast intro: quiet_trans)
  qed
qed

lemma quiet_oldXHRSend:
  assumes "quietRunner ex" "unblockingEvents s" "oldXHRSend ex x args during throws s = Some (s', e)"
  shows "quiet s s'"
proof -
  let ?s1 = "log (HostSend x args) s"
  have q1: "quiet s ?s1" using assms(2) by (simp add: quiet_log)
  have "hostTurns ex during ?s1 = Some s'"
    using assms(3) by (auto simp add: oldXHRSend_def split: option.splits)
  then have "quiet ?s1 s'" using assms(1) quiet_guard[OF q1] by (rule_tac quiet_hostTurns)
  with q1 show ?thesis by (rule quiet_trans)
qed

lemma quiet_send:
  assumes "quietRunner ex" "unblockingEvents s" "send ex k x arguments during throws s = Some (s', e)"
  shows "quiet s s'"
proof (cases "x \<in> openSyncXHRs s")
  case False
  then show ?thesis using assms by (simp add: send_def quiet_oldXHRSend)
next
  case True
  let ?f = "(\<lambda>s1.
             let s2 = s1\<lparr> currentlyBlockingOnSyncXHRs := currentlyBlockingOnSyncXHRs s1 + 1 \<rparr>;
                 s3 = log QueueReset (s2\<lparr> currentlyBlockedEvents := Some [] \<rparr>)
             in case oldXHRSend ex x [] during throws s3 of
                  None \<Rightarrow> None
                | Some (s4, caughtException) \<Rightarrow>
                    let s5 = (if currentlyBlockingOnSyncXHRs s4 = 1
                              then s4\<lparr> mustUnblockEventsNow := True,
                                       microtasks := microtasks s4 @ [UnblockTask] \<rparr>
                              else s4)
                    in Some (s5, caughtException))"
  have run: "andThen (unblockEventsIfNecessary ex k s) ?f = Some (s', e)"
    using assms(3) True by (simp add: send_def)
  show ?thesis using run
  proof (rule andThen_quiet)
    fix s1 e1 assume "unblockEventsIfNecessary ex k s = Some (s1, e1)"
    then show "quiet s s1" using assms(2) by (rule_tac quiet_unblock)
  next
    fix s1 assume u: "unblockEventsIfNecessary ex k s = Some (s1, None)"
    have g1: "unblockingEvents s1" using quiet_unblock[OF assms(2) u] by (rule quiet_guard)
    let ?s3 = "log QueueReset (s1\<lparr> currentlyBlockingOnSyncXHRs := currentlyBlockingOnSyncXHRs s1 + 1,
                                      currentlyBlockedEvents := Some [] \<rparr>)"
    have q3: "quiet s1 ?s3" using g1 by (rule quiet_reset)
    have "?f s1 = Some (s', e)" using run u by simp
    then obtain s4 where s4: "oldXHRSend ex x [] during throws ?s3 = Some (s4, e)"
      and s': "s' = s4 \<or> s' = s4\<lparr> mustUnblockEventsNow := True, microtasks := microtasks s4 @ [UnblockTask] \<rparr>"
      by (auto simp add: Let_def split: option.splits if_splits)
    have q4: "quiet ?s3 s4" using assms(1) quiet_guard[OF q3] s4 by (rule quiet_oldXHRSend)
    have "quiet s4 s'" using s' quiet_guard[OF q4] by (auto intro!: quiet_same)
    with q3 q4 show "quiet s1 s'" by (blast intro: quiet_trans)
  qed
qed

lemma quiet_step:
  assumes "quietRunner ex" "unblockingEvents s" "step ex k a s = Some (s', e)"
  shows "quiet s s'"
proof (cases a)
  case (Open x args)
  then have "s' = open x args s" using assms(3) by (simp add: step_def)
  moreover have "quiet s (open x args s)"
  proof -
    let ?s1 = "if length args > 2 \<and> \<not> truthy (arg args 2)
        then s\<lparr> openSyncXHRs := insert x (openSyncXHRs s) \<rparr> else s"
    have "quiet s ?s1" using assms(2) by (auto intro!: quiet_same)
    moreover have "quiet ?s1 (log (HostOpen x args) ?s1)"
      using quiet_guard[OF calculation] by (simp add: quiet_log)
    ultimately show ?thesis unfolding open_def oldXHROpen_def by (rule quiet_trans)
  qed
  ultimately show ?thesis by simp
next
  case (Send x args during throws)
  then show ?thesis using assms by (simp add: step_def quiet_send)
next
  case (PostMessage w args)
  then have "s' = postMessage w args s" using assms(3) by (simp add: step_def)
  then show ?thesis using assms(2) by (auto simp add: postMessage_def intro!: quiet_same)
next
  case Tick
  show ?thesis
  proof (cases "microtasks s")
    case Nil
    then show ?thesis using assms Tick by (simp add: step_def quiet_refl)
  next
    case (Cons t ts)
    let ?s1 = "s\<lparr> microtasks := ts \<rparr>"
    have q1: "quiet s ?s1" using assms(2) by (auto intro!: quiet_same)
    show ?thesis
    proof (cases t)
      case UnblockTask
      then have "unblockEventsIfNecessary ex k ?s1 = Some (s', e)"
        using assms(3) Tick Cons by (simp add: step_def)
      then have "quiet ?s1 s'" using quiet_guard[OF q1] by (rule_tac quiet_unblock)
      with q1 show ?thesis by (rule quiet_trans)
    next
      case (PostMessageTask w args)
      then have pm: "postMessageTick w args ?s1 = (s', e)"
        using assms(3) Tick Cons by (simp add: step_def)
      have "quiet ?s1 s'"
      proof (cases "currentlyBlockingOnSyncXHRs ?s1 \<noteq> 0")
        case True
        then have "push (PostMessageClosure w args) ?s1 = (s', e)"
          using pm by (simp add: postMessageTick_def)
        then show ?thesis using quiet_guard[OF q1] by (rule_tac quiet_push)
      next
        case False
        then have "s' = log (HostPostMessage w args) ?s1"
          using pm by (simp add: postMessageTick_def)
        then show ?thesis using quiet_guard[OF q1] by (simp add: quiet_log)
      qed
      with q1 show ?thesis by (rule quiet_trans)
    qed
  qed
next
  case (Fire x h type args)
  then show ?thesis using assms by (simp add: step_def quiet_wrapHandler)
next
  case (FireSlot evt x args)
  then show ?thesis using assms
    by (auto simp add: step_def quiet_wrapHandler quiet_refl split: option.splits)
next
  case (SetOn evt x h)
  then have "s' = s \<or> s' = setOn evt x h s" using assms(3) by (auto simp add: step_def)
  then show ?thesis using assms(2) by (auto simp add: setOn_def intro!: quiet_same)
next
  case (GetOn evt x)
  then have "s' = s \<or> s' = log (SawHandler (getOn evt x s)) s" using assms(3) by (auto simp add: step_def)
  then show ?thesis using assms(2) by (auto simp add: quiet_log quiet_refl)
next
  case (GetReadyState x)
  then show ?thesis using assms by (auto simp add: step_def quiet_log)
next
  case (GetResponseText x)
  then show ?thesis using assms by (auto simp add: step_def quiet_log)
next
  case (HostUpdate x rs rty rtx)
  then show ?thesis using assms by (auto simp add: step_def intro!: quiet_same)
next
  case (Throw i)
  then show ?thesis using assms by (auto simp add: step_def quiet_refl)
qed

lemma quietRunner_exec: "quietRunner (exec n)"
proof (induction n)
  case 0
  show ?case by (simp add: quietRunner_def)
next
  case (Suc n)
  show ?case unfolding quietRunner_def
  proof (intro allI impI)
    fix script s s' e
    assume g: "unblockingEvents s" and r: "exec (Suc n) script s = Some (s', e)"
    show "quiet s s'"
    proof (cases script)
      case Nil
      then show ?thesis using g r by (simp add: quiet_refl)
    next
      case (Cons a rest)
      then have run: "andThen (step (exec n) n a s) (exec n rest) = Some (s', e)" using r by simp
      then show ?thesis
      proof (rule andThen_quiet)
        fix s1 e1 assume "step (exec n) n a s = Some (s1, e1)"
        then show "quiet s s1" using Suc g by (rule_tac quiet_step)
      next
        fix s1 assume st: "step (exec n) n a s = Some (s1, None)"
        have g1: "unblockingEvents s1" using quiet_step[OF Suc g st] by (rule quiet_guard)
        have "exec n rest s1 = Some (s', e)" using run st by simp
        then show "quiet s1 s'" using Suc g1 by (rule_tac quietRunnerD)
      qed
    qed
  qed
qed


lemma quiet_callClosure:
  assumes "quietRunner ex" "unblockingEvents s" "callClosure ex c s = Some (s', e)"
  shows "quiet s s'"
proof (cases c)
  case (WrappedHandler x spoofs h args d)
  then show ?thesis using assms by (simp add: callClosure_def quiet_wrappedHandler)
next
  case (PostMessageClosure w args)
  then show ?thesis using assms by (auto simp add: callClosure_def quiet_log)
qed

lemma inOrder_Cons: "inOrder (c # cs) = Unblocking c # Finished c # inOrder cs"
  by (simp add: inOrder_def)

lemma inOrder_Nil: "inOrder [] = []"
  by (simp add: inOrder_def)

lemma marks [simp]:
  "replays [Unblocking c] = [Unblocking c]" "replays [Finished c] = [Finished c]"
  "queued [Unblocking c] = []" "queued [Finished c] = []"
  by (simp_all add: replays_def queued_def isReplay_def)

lemma inOrder_empty: "(inOrder cs = []) = (cs = [])"
  by (cases cs) (simp_all add: inOrder_def)

lemma inOrder_snoc: "inOrder (prior @ [c]) = inOrder prior @ [Unblocking c, Finished c]"
  by (simp add: inOrder_def)

lemma quiet_queue:
  assumes "quiet s s1" "currentlyBlockedEvents s = Some q"
  obtains n1 q1 where "trace s1 = trace s @ n1" "replays n1 = []"
    "currentlyBlockedEvents s1 = Some q1" "subseq q1 (q @ queued n1)"
    "QueueReset \<notin> set n1 \<longrightarrow> q1 = q @ queued n1"
proof -
  from assms(1) obtain n1 where n1: "trace s1 = trace s @ n1" "replays n1 = []"
    "subseq (qlist s1) (qlist s @ queued n1)"
    "QueueReset \<notin> set n1 \<longrightarrow>
       currentlyBlockedEvents s1 = map_option (\<lambda>q. q @ queued n1) (currentlyBlockedEvents s)"
    and "currentlyBlockedEvents s = None \<or> currentlyBlockedEvents s1 \<noteq> None"
    unfolding quiet_def by blast
  then obtain q1 where q1: "currentlyBlockedEvents s1 = Some q1" using assms(2) by auto
  have "subseq q1 (q @ queued n1)" using n1(3) q1 assms(2) by (simp add: qlist_def)
  moreover have "QueueReset \<notin> set n1 \<longrightarrow> q1 = q @ queued n1" using n1(4) q1 assms(2) by simp
  ultimately show ?thesis using that n1(1,2) q1 by blast
qed

lemma drainLoop_spec:
  assumes ex: "quietRunner ex"
  shows "unblockingEvents s \<Longrightarrow> currentlyBlockedEvents s = Some q \<Longrightarrow>
         drainLoop ex k s = Some (s', e) \<Longrightarrow>
         unblockingEvents s' \<and> currentlyBlockingOnSyncXHRs s \<le> currentlyBlockingOnSyncXHRs s' \<and>
         (\<exists>new. trace s' = trace s @ new \<and> drained q new s' e)"
proof (induction k arbitrary: s q)
  case 0
  then show ?case by simp
next
  case (Suc k)
  show ?case
  proof (cases q)
    case Nil
    then have "s' = s" "e = None" using Suc.prems by simp_all
    moreover have "trace s = trace s @ [] \<and> drained [] [] s None"
      using Suc.prems(2) Nil by (simp add: drained_def inOrder_Nil)
    ultimately show ?thesis using Suc.prems(1) Nil by blast
  next
    case (Cons c q')
    let ?s0 = "log (Unblocking c) (s\<lparr> currentlyBlockedEvents := Some q' \<rparr>)"
    have g0: "unblockingEvents ?s0" using Suc.prems(1) by (simp add: log_def)
    have d0: "currentlyBlockingOnSyncXHRs ?s0 = currentlyBlockingOnSyncXHRs s" by (simp add: log_def)
    have t0: "trace ?s0 = trace s @ [Unblocking c]" by (simp add: log_def)
    have q0: "currentlyBlockedEvents ?s0 = Some q'" by (simp add: log_def)
    have run: "andThen (callClosure ex c ?s0) (\<lambda>s1. drainLoop ex k (log (Finished c) s1)) = Some (s', e)"
      using Suc.prems(2,3) Cons by simp
    from run show ?thesis
    proof (cases rule: andThen_SomeD)
      case (stop x)
      have qu: "quiet ?s0 s'" using ex g0 stop(1) by (rule quiet_callClosure)
      then have g: "unblockingEvents s'"
        and d: "currentlyBlockingOnSyncXHRs ?s0 \<le> currentlyBlockingOnSyncXHRs s'"
        unfolding quiet_def by auto
      from qu q0 obtain n1 q1 where n1: "trace s' = trace ?s0 @ n1" "replays n1 = []"
        "currentlyBlockedEvents s' = Some q1" "subseq q1 (q' @ queued n1)"
        "QueueReset \<notin> set n1 \<longrightarrow> q1 = q' @ queued n1"
        by (rule quiet_queue)
      let ?new = "Unblocking c # n1"
      have qn: "queued ?new = queued n1" using queued_append[of "[Unblocking c]" n1] by simp
      have rn: "replays ?new = [Unblocking c]"
        using replays_append[of "[Unblocking c]" n1] n1(2) by simp
      have "trace s' = trace s @ ?new" using n1(1) t0 by simp
      moreover have "drained q ?new s' e"
      proof -
        have "subseq ([c] @ q1) (q @ queued ?new)" using n1(4) Cons qn by simp
        moreover have "QueueReset \<notin> set ?new \<longrightarrow> [c] @ q1 = q @ queued ?new"
          using n1(5) Cons qn by simp
        moreover have "[c] \<noteq> [] \<and> replays ?new = butlast (inOrder [c])"
          using rn by (simp add: inOrder_def)
        ultimately show ?thesis unfolding drained_def using stop(2) n1(3)
          by (simp del: append_Cons append_Nil; blast)
      qed
      ultimately show ?thesis using g d d0 by auto
    next
      case (go s1)
      have qu: "quiet ?s0 s1" using ex g0 go(1) by (rule quiet_callClosure)
      then have g1: "unblockingEvents s1"
        and d1: "currentlyBlockingOnSyncXHRs ?s0 \<le> currentlyBlockingOnSyncXHRs s1"
        unfolding quiet_def by auto
      from qu q0 obtain n1 q1 where n1: "trace s1 = trace ?s0 @ n1" "replays n1 = []"
        "currentlyBlockedEvents s1 = Some q1" "subseq q1 (q' @ queued n1)"
        "QueueReset \<notin> set n1 \<longrightarrow> q1 = q' @ queued n1"
        by (rule quiet_queue)
      let ?s2 = "log (Finished c) s1"
      have g2: "unblockingEvents ?s2" using g1 by (simp add: log_def)
      have d2: "currentlyBlockingOnSyncXHRs ?s2 = currentlyBlockingOnSyncXHRs s1" by (simp add: log_def)
      have t2: "trace ?s2 = trace s @ (Unblocking c # n1 @ [Finished c])"
        using n1(1) t0 by (simp add: log_def)
      have q2: "currentlyBlockedEvents ?s2 = Some q1" using n1(3) by (simp add: log_def)
      from Suc.IH[OF g2 q2 go(2)] obtain n2 where g: "unblockingEvents s'"
        and d: "currentlyBlockingOnSyncXHRs ?s2 \<le> currentlyBlockingOnSyncXHRs s'"
        and n2: "trace s' = trace ?s2 @ n2" "drained q1 n2 s' e"
        by blast
      from n2(2) obtain cs rest where cr: "currentlyBlockedEvents s' = Some rest"
        "subseq (cs @ rest) (q1 @ queued n2)"
        "QueueReset \<notin> set n2 \<longrightarrow> cs @ rest = q1 @ queued n2"
        "case e of None \<Rightarrow> replays n2 = inOrder cs \<and> rest = []
                 | Some _ \<Rightarrow> cs \<noteq> [] \<and> replays n2 = butlast (inOrder cs)"
        unfolding drained_def by blast
      let ?new = "Unblocking c # n1 @ [Finished c] @ n2"
      have qn: "queued ?new = queued n1 @ queued n2"
        using queued_append[of "[Unblocking c]" "n1 @ [Finished c] @ n2"]
          queued_append[of "[Finished c]" n2] by simp
      have rn: "replays ?new = Unblocking c # Finished c # replays n2"
        using replays_append[of "[Unblocking c]" "n1 @ [Finished c] @ n2"]
          replays_append[of "[Finished c]" n2] n1(2) by simp
      have "trace s' = trace s @ ?new" using n2(1) t2 by simp
      moreover have "drained q ?new s' e"
      proof -
        have "subseq (q1 @ queued n2) ((q' @ queued n1) @ queued n2)"
          using n1(4) by (rule list_emb_append_mono) simp
        with cr(2) have "subseq (cs @ rest) ((q' @ queued n1) @ queued n2)"
          by (rule subseq_order.trans)
        then have a: "subseq ((c # cs) @ rest) (q @ queued ?new)" using Cons qn by simp
        have b: "QueueReset \<notin> set ?new \<longrightarrow> (c # cs) @ rest = q @ queued ?new"
          using n1(5) cr(3) Cons qn by simp
        have c: "case e of None \<Rightarrow> replays ?new = inOrder (c # cs) \<and> rest = []
                 | Some _ \<Rightarrow> c # cs \<noteq> [] \<and> replays ?new = butlast (inOrder (c # cs))"
          using cr(4) rn by (cases e) (simp_all add: inOrder_Cons inOrder_empty)
        from a b c cr(1) show ?thesis unfolding drained_def by blast
      qed
      ultimately show ?thesis using g d d2 d1 d0 by auto
    qed
  qed
qed

lemma newEvents_append: "trace s' = trace s @ new \<Longrightarrow> newEvents s s' = new"
  by (simp add: newEvents_def)

lemma unblock_drains:
  assumes "mustUnblockEventsNow s" "\<not> unblockingEvents s" "currentlyBlockedEvents s = Some q"
    "unblockEventsIfNecessary ex k s = Some (s', e)" "quietRunner ex"
  shows "unblockingEvents s' \<and>
         (case e of None \<Rightarrow> currentlyBlockingOnSyncXHRs s - 1 \<le> currentlyBlockingOnSyncXHRs s'
                  | Some _ \<Rightarrow> currentlyBlockingOnSyncXHRs s \<le> currentlyBlockingOnSyncXHRs s') \<and>
         drained q (newEvents s s') s' e"
proof -
  let ?s1 = "s\<lparr> mustUnblockEventsNow := False, unblockingEvents := True \<rparr>"
  let ?f = "\<lambda>s2. Some (s2\<lparr> unblockingEvents := True,
                 currentlyBlockingOnSyncXHRs := currentlyBlockingOnSyncXHRs s2 - 1 \<rparr>, None)"
  have run: "andThen (drainLoop ex k ?s1) ?f = Some (s', e)"
    using assms(1,2,4) by (simp add: unblockEventsIfNecessary_def)
  have g1: "unblockingEvents ?s1" and q1: "currentlyBlockedEvents ?s1 = Some q"
    using assms(3) by simp_all
  from run show ?thesis
  proof (cases rule: andThen_SomeD)
    case (stop x)
    from drainLoop_spec[OF assms(5) g1 q1 stop(1)] obtain new where
      "unblockingEvents s'" "currentlyBlockingOnSyncXHRs ?s1 \<le> currentlyBlockingOnSyncXHRs s'"
      "trace s' = trace ?s1 @ new" "drained q new s' (Some x)"
      by blast
    moreover from this have "newEvents s s' = new" by (simp add: newEvents_def)
    ultimately show ?thesis using stop(2) by simp
  next
    case (go s2)
    from drainLoop_spec[OF assms(5) g1 q1 go(1)] obtain new where
      "unblockingEvents s2" "currentlyBlockingOnSyncXHRs ?s1 \<le> currentlyBlockingOnSyncXHRs s2"
      "trace s2 = trace ?s1 @ new" "drained q new s2 None"
      by blast
    moreover have s': "s' = s2\<lparr> unblockingEvents := True,
                 currentlyBlockingOnSyncXHRs := currentlyBlockingOnSyncXHRs s2 - 1 \<rparr>" and "e = None"
      using go(2) by auto
    moreover from calculation have "newEvents s s' = new" by (simp add: newEvents_def)
    ultimately show ?thesis by (simp add: drained_def)
  qed
qed

lemma outcomeI: "map_option snd r = Some e \<Longrightarrow> r = Some (fst (the r), e)"
  by (cases r) auto

section \<open>The getters, the guard and an inert queue\<close>

text \<open>
  The text getter gives the captured prefix, the stage getter the captured stage unless
  that is 0, and both give the live value when nothing is captured.
\<close>

lemma responseText_captured:
  assumes "map_of (XHRStateSpoofs s) x = Some c" "getProperty c ResponseTextLength = Some n"
  shows "responseText s x = take n (oldXHRRT s x)"
  using assms by (simp add: responseText_def Let_def)

lemma readyState_captured_nonzero:
  assumes "map_of (XHRStateSpoofs s) x = Some c" "getProperty c ReadyState = Some v" "v \<noteq> 0"
  shows "readyState s x = v"
  using assms by (simp add: readyState_def Let_def)

lemma readyState_captured_zero:
  assumes "map_of (XHRStateSpoofs s) x = Some c" "getProperty c ReadyState = Some 0"
  shows "readyState s x = oldXHRRS s x"
  using assms by (simp add: readyState_def Let_def)

lemma getters_live_without_capture:
  assumes "map_of (XHRStateSpoofs s) x = None \<or>
           (\<exists>c. map_of (XHRStateSpoofs s) x = Some c \<and> getProperty c ReadyState = None \<and>
                getProperty c ResponseTextLength = None)"
  shows "readyState s x = oldXHRRS s x" "responseText s x = oldXHRRT s x"
  using assms by (auto simp add: readyState_def responseText_def Let_def)

text \<open>
  A first round as the polyfix means it: no handler of request 2 runs before the send of
  request 1 has returned; on the scheduled turn the handlers run in the order of their
  events, each reading the stage and the part of the response of its own event.
\<close>

lemma first_round_blocks_until_send_returns:
  "map_option (\<lambda>(s, e). (invocations (trace s), currentlyBlockedEvents s, e))
     (exec 12 (butlast progressRound) init) =
   Some ([], Some [WrappedHandler 2 [(ReadyState, Some 3), (ResponseTextLength, Some 0)] hReads
                     [Event ''progress'' (Some 0)] (''progress'', 3, False),
                   WrappedHandler 2 [(ReadyState, Some 3), (ResponseTextLength, Some 5)] hReads
                     [Event ''progress'' (Some 5)] (''progress'', 3, False),
                   WrappedHandler 2 [(ReadyState, Some 4), (ResponseTextLength, Some 10)] hReads
                     [loadEvent] (''load'', 4, False)], None)"
  by code_simp

lemma first_round_replays_with_captured_state:
  "map_option (\<lambda>(s, e). (observed (trace s), currentlyBlockedEvents s, e))
     (exec 12 progressRound init) =
   Some ([Saw (JNum 3), Saw (JStr []), Saw (JNum 3), Saw (JStr ''hello''),
          Saw (JNum 4), Saw (JStr ''helloworld'')], Some [], None)"
  by code_simp

text \<open>A drain that ends normally leaves \<open>unblockingEvents\<close> set (line 154).\<close>

lemma guard_set_after_drain:
  assumes "mustUnblockEventsNow s" "\<not> unblockingEvents s"
    "unblockEventsIfNecessary ex k s = Some (s', None)"
  shows "unblockingEvents s'"
proof -
  have "andThen (drainLoop ex k (s\<lparr> mustUnblockEventsNow := False, unblockingEvents := True \<rparr>))
          (\<lambda>s2. Some (s2\<lparr> unblockingEvents := True,
                 currentlyBlockingOnSyncXHRs := currentlyBlockingOnSyncXHRs s2 - 1 \<rparr>, None))
        = Some (s', None)"
    using assms by (simp add: unblockEventsIfNecessary_def)
  then show ?thesis by (cases rule: andThen_SomeD) auto
qed

text \<open>
  A queue of closures that do nothing further (blocked messages, and blocked events whose
  handler is a function with an empty body) is drained to the end, with a bound of one
  more than its length.
\<close>

lemma callClosure_inert:
  assumes "inert c"
  shows "\<exists>s'. callClosure (exec (Suc n)) c s = Some (s', None) \<and>
              currentlyBlockedEvents s' = currentlyBlockedEvents s"
proof (cases c)
  case (PostMessageClosure w args)
  then show ?thesis by (simp add: callClosure_def log_def)
next
  case (WrappedHandler x spoofs h args d)
  then obtain i where "h = Handler i (Some []) None"
    using assms by (auto split: handler.splits)
  then show ?thesis using WrappedHandler
    by (simp add: callClosure_def wrappedHandler_def has_handleEvent_def call_apply_def
        spoofXHRState_def log_def Let_def)
qed

lemma drainLoop_inert:
  assumes "\<forall>c \<in> set q. inert c" "currentlyBlockedEvents s = Some q" "length q < k"
  shows "\<exists>s'. drainLoop (exec (Suc n)) k s = Some (s', None)"
  using assms
proof (induction q arbitrary: s k)
  case Nil
  then obtain k' where "k = Suc k'" by (cases k) auto
  then show ?case using Nil by simp
next
  case (Cons c q)
  then obtain k' where k: "k = Suc k'" "length q < k'" by (cases k) auto
  let ?s0 = "log (Unblocking c) (s\<lparr> currentlyBlockedEvents := Some q \<rparr>)"
  from Cons.prems(1) have "inert c" by simp
  from callClosure_inert[OF this, of n ?s0] obtain s1 where
    s1: "callClosure (exec (Suc n)) c ?s0 = Some (s1, None)"
        "currentlyBlockedEvents s1 = currentlyBlockedEvents ?s0"
    by blast
  have "currentlyBlockedEvents (log (Finished c) s1) = Some q"
    using s1(2) by (simp add: log_def)
  moreover have "\<forall>c \<in> set q. inert c" using Cons.prems(1) by simp
  ultimately obtain s' where "drainLoop (exec (Suc n)) k' (log (Finished c) s1) = Some (s', None)"
    using Cons.IH k(2) by blast
  then show ?case using Cons.prems(2) k(1) s1(1) by simp
qed

lemma drain_of_inert_queue_returns:
  assumes "mustUnblockEventsNow s" "\<not> unblockingEvents s"
    "currentlyBlockedEvents s = Some q" "\<forall>c \<in> set q. inert c" "length q < k"
  shows "\<exists>s'. unblockEventsIfNecessary (exec (Suc n)) k s = Some (s', None)"
proof -
  let ?s1 = "s\<lparr> mustUnblockEventsNow := False, unblockingEvents := True \<rparr>"
  have "currentlyBlockedEvents ?s1 = Some q" using assms(3) by simp
  from drainLoop_inert[OF assms(4) this assms(5), of n] obtain s2 where
    "drainLoop (exec (Suc n)) k ?s1 = Some (s2, None)" by blast
  then show ?thesis using assms(1,2) by (simp add: unblockEventsIfNecessary_def)
qed

text \<open>
  Once a drain has run, to its end or not, nothing is ever replayed again, whatever the
  page and the host do.
\<close>

lemma nothing_replayed_after_a_drain:
  assumes "mustUnblockEventsNow s" "\<not> unblockingEvents s" "currentlyBlockedEvents s = Some q"
    "unblockEventsIfNecessary (exec n) k s = Some (s', e)"
    "exec m script s' = Some (s'', e')"
  shows "unblockingEvents s'' \<and> replays (newEvents s' s'') = []"
proof -
  have "unblockingEvents s'" using unblock_drains[OF assms(1-4) quietRunner_exec] by simp
  then have "quiet s' s''" using quietRunner_exec assms(5) by (blast intro: quietRunnerD)
  then show ?thesis unfolding quiet_def by (auto simp add: newEvents_def)
qed

text \<open>
  A synchronous send with no drain due, during which nothing happens: whatever the depth
  and the queue before, the host's send is called without arguments, the depth is one
  more and the queue is a new empty array. An asynchronous send hands the host the
  arguments object.
\<close>

lemma sync_send_replaces_queue:
  assumes "x \<in> openSyncXHRs s" "\<not> mustUnblockEventsNow s"
  shows "\<exists>s'. send ex k x arguments [] throws s = Some (s', if throws then Some HostError else None) \<and>
              currentlyBlockedEvents s' = Some [] \<and>
              currentlyBlockingOnSyncXHRs s' = currentlyBlockingOnSyncXHRs s + 1 \<and>
              hostSends (newEvents s s') = [HostSend x []]"
  using assms
  by (simp add: send_def unblockEventsIfNecessary_def oldXHRSend_def log_def Let_def
      newEvents_def hostSends_def)

lemma async_send_passes_arguments_object:
  assumes "x \<notin> openSyncXHRs s"
  shows "\<exists>s'. send ex k x arguments [] throws s = Some (s', if throws then Some HostError else None) \<and>
              hostSends (newEvents s s') = [HostSend x [Arguments arguments]]"
  using assms
  by (simp add: send_def oldXHRSend_def log_def newEvents_def hostSends_def)

text \<open>The getter of an \<open>on*\<close> property returns the handler last assigned to any request.\<close>

lemma getOn_ignores_request: "getOn evt x (setOn evt y h s) = Some h"
  by (simp add: getOn_def setOn_def update_conv')

lemma setOn_null_installs_wrapper:
  "map_of (nativeSlot (setOn evt x HNull s)) (evt, x) = Some (HNull, ''on'' @ evt)"
  by (simp add: setOn_def update_conv')

text \<open>
  What a drain pass keeps. When \<open>unblockEventsIfNecessary\<close> drains (a drain is due and
  none is running) and the pass ends normally, the closures \<open>cs\<close> it called were each
  called and returned before the next was called, and they keep the order in which they
  were pushed: \<open>cs\<close> is, in order, taken from the queue as it stood followed by the
  closures that handlers pushed during the same pass. Only a pass in which no handler
  started a synchronous send (which replaces the array) calls all of them.
\<close>

lemma drain_pass_keeps_push_order:
  assumes "mustUnblockEventsNow s" and "\<not> unblockingEvents s"
    and "currentlyBlockedEvents s = Some q"
    and "unblockEventsIfNecessary (exec n) k s = Some (s', None)"
  shows "currentlyBlockedEvents s' = Some [] \<and>
         (\<exists>cs. replays (newEvents s s') = inOrder cs \<and>
               subseq cs (q @ queued (newEvents s s')) \<and>
               (QueueReset \<notin> set (newEvents s s') \<longrightarrow> cs = q @ queued (newEvents s s')))"
  using unblock_drains[OF assms(1-4) quietRunner_exec] by (auto simp add: drained_def)

text \<open>
  A pass without a nested send: the handler replayed first pushes a closure, which runs
  in the same pass behind the blocked message.
\<close>

lemma drain_pass_with_pushed_closure:
  "currentlyBlockedEvents dueFifo = Some [blocked 2 hFires [], PostMessageClosure 0 [JStr ''hi'']]"
  "map_option snd (unblockEventsIfNecessary (exec 4) 4 dueFifo) = Some None"
  "queued (newEvents dueFifo dueFifo') = [blocked 3 hB []]"
  "newEvents dueFifo dueFifo' =
     [Unblocking (blocked 2 hFires []), Invoked 7 ViaApply ThisUndefined [],
      Queued (blocked 3 hB []), Finished (blocked 2 hFires []),
      Unblocking (PostMessageClosure 0 [JStr ''hi'']), HostPostMessage 0 [JStr ''hi''],
      Finished (PostMessageClosure 0 [JStr ''hi'']),
      Unblocking (blocked 3 hB []), Invoked 2 ViaApply ThisUndefined [],
      Finished (blocked 3 hB [])]"
  "currentlyBlockedEvents dueFifo' = Some []"
  unfolding dueFifo'_def by code_simp+

section \<open>The claims\<close>

text \<open>
  C1 (the code departs from it). Every event queued during a blocking window should run,
  in push order. At the state \<open>nestedSend\<close> reaches when the send of request 1 has
  returned, a drain is due and none is running, and the events of \<open>hNested\<close> and \<open>hB\<close>
  are queued in that order. The drain ends normally and the queue is empty afterwards,
  but only \<open>hNested\<close> was called: its nested send replaced the array (line 178), and the
  closure of \<open>hB\<close>, pushed in the same window, never runs. In the second round of
  \<open>twoRounds\<close> a drain is due with the event of \<open>hB\<close> queued; the guard is still set
  (line 154), the call returns without calling anything and the event stays queued.
\<close>

theorem drain_leaves_queued_events_unrun:
  "mustUnblockEventsNow dueNested \<and> \<not> unblockingEvents dueNested \<and>
   currentlyBlockedEvents dueNested = Some [blocked 2 hNested [], blocked 2 hB []] \<and>
   map_option snd (unblockEventsIfNecessary (exec 6) 6 dueNested) = Some None \<and>
   newEvents dueNested dueNested' =
     [Unblocking (blocked 2 hNested []), Invoked 5 ViaApply ThisUndefined [],
      QueueReset, HostSend 3 [], Finished (blocked 2 hNested [])] \<and>
   currentlyBlockedEvents dueNested' = Some [] \<and>
   mustUnblockEventsNow dueSecondRound \<and> unblockingEvents dueSecondRound \<and>
   currentlyBlockedEvents dueSecondRound = Some [blocked 2 hB []] \<and>
   map_option snd (unblockEventsIfNecessary (exec 6) 6 dueSecondRound) = Some None \<and>
   newEvents dueSecondRound dueSecondRound' = [] \<and>
   currentlyBlockedEvents dueSecondRound' = Some [blocked 2 hB []]"
  unfolding dueNested'_def dueSecondRound'_def by code_simp

text \<open>
  C2 (the code departs from it). Each round of blocking should be drained exactly once,
  the drain ending with the depth decremented and the guard \<open>unblockingEvents\<close> cleared.
  Line 154 sets the guard to \<open>true\<close> again, so after the first drain no drain ever runs:
  in the second of two rounds the scheduled turn finds the guard set, the blocked event
  stays queued, its handler is never called and the depth stays 1.
\<close>

theorem second_round_is_never_drained:
  "map_option (\<lambda>(s, e). (invocations (trace s), currentlyBlockedEvents s,
                          currentlyBlockingOnSyncXHRs s, unblockingEvents s, microtasks s, e))
     (exec 10 twoRounds init) =
   Some ([Invoked 1 ViaApply ThisUndefined []], Some [blocked 2 hB []], 1, True, [], None)"
  by code_simp

text \<open>
  C3 (the code departs from it). A nested synchronous send should keep the pending queue.
  \<open>send\<close> assigns a new empty array on every synchronous send, whatever the depth: when
  the first replayed handler sends request 3, the event still queued behind it is
  dropped; its handler \<open>hB\<close> is never called, and the depth is left at 1.
\<close>

theorem nested_send_drops_queued_events:
  "map_option (\<lambda>(s, e). (queued (trace s), invocations (trace s), currentlyBlockedEvents s,
                          currentlyBlockingOnSyncXHRs s, microtasks s, e))
     (exec 10 nestedSend init) =
   Some ([blocked 2 hNested [], blocked 2 hB []], [Invoked 5 ViaApply ThisUndefined []],
         Some [], 1, [], None)"
  by code_simp

text \<open>
  C4 (the code departs from it). With a capture installed the stage getter should return
  the captured stage, also when that is 0. The getter is \<open>override || live\<close>, and 0 is
  falsy: an event captured at stage 0 and replayed when the live stage is 4 reads 4. (The
  text getter does give the captured prefix, here the first 0 characters of \<open>abc\<close>.)
\<close>

theorem captured_stage_zero_reads_live:
  "map_option (\<lambda>(s, e). (queued (trace s), observed (trace s), e)) (exec 10 staleStage init) =
   Some ([blocked 2 hReads [loadEvent]], [Saw (JNum 4), Saw (JStr [])], None)"
  by code_simp

text \<open>
  C5. A signal of a request classified synchronous is never deferred: whatever the depth
  and the rest of the state, the wrapper calls the handler at once, in the state as it
  is (\<open>handleEvent\<close> if the handler has one, else the handler itself with \<open>this\<close> the
  request), and what the wrapper returns is what that call returns; nothing is pushed.
\<close>

theorem sync_signal_runs_now:
  assumes "x \<in> openSyncXHRs s"
  shows "wrapHandler ex (Handler i ab hb) type x args s =
           (case hb of
              Some body \<Rightarrow> ex body (log (Invoked i ViaHandleEvent ThisHandler [Arguments args]) s)
            | None \<Rightarrow>
                (case ab of
                   Some body \<Rightarrow> ex body (log (Invoked i ViaApply (ThisXHR x) args) s)
                 | None \<Rightarrow> Some (s, Some TypeError)))"
  using assms
  by (simp add: wrapHandler_def Let_def has_handleEvent_def call_handleEvent_def call_apply_def
           split: option.splits)

theorem sync_signal_runs_now_witness:
  "1 \<in> openSyncXHRs midSend \<and> currentlyBlockingOnSyncXHRs midSend = 1 \<and>
   map_option (\<lambda>(s, e). (newEvents midSend s, currentlyBlockedEvents s, e))
     (wrapHandler (exec 2) (Handler 1 (Some []) None) ''load'' 1 [loadEvent] midSend) =
   Some ([Invoked 1 ViaApply (ThisXHR 1) [loadEvent]], Some [], None)"
proof -
  have h: "1 \<in> openSyncXHRs midSend" by code_simp
  have d: "currentlyBlockingOnSyncXHRs midSend = 1" by code_simp
  have "map_option (\<lambda>(s, e). (newEvents midSend s, currentlyBlockedEvents s, e))
          (exec 2 [] (log (Invoked 1 ViaApply (ThisXHR 1) [loadEvent]) midSend)) =
        Some ([Invoked 1 ViaApply (ThisXHR 1) [loadEvent]], Some [], None)"
    by code_simp
  with sync_signal_runs_now[OF h, of "exec 2" 1 "Some []" None "''load''" "[loadEvent]"] h d
  show ?thesis by simp
qed

text \<open>
  C6 (the code departs from it). A deferred handler should be called exactly once with
  the original arguments. The closure \<open>wrappedHandler\<close> calls \<open>handleEvent\<close> without
  returning and then \<open>handler.apply\<close> in every case (the undeferred path returns after
  \<open>handleEvent\<close>). For an object with only \<open>handleEvent\<close> the method is called with the
  arguments object as its one argument, then \<open>apply\<close> raises a TypeError, which ends the
  drain with the next event still queued and never delivered; a function that also has a
  \<open>handleEvent\<close> property is called twice for one signal.
\<close>

theorem deferred_handleEvent_handler_misdelivered:
  "map_option (\<lambda>(s, e). (invocations (trace s), currentlyBlockedEvents s, e))
     (exec 10 handleEventObjectDeferred init) =
   Some ([Invoked 3 ViaHandleEvent ThisHandler [Arguments [loadEvent]]],
         Some [blocked 2 hA [loadEvent]], Some TypeError) \<and>
   map_option (\<lambda>(s, e). (invocations (trace s), currentlyBlockedEvents s, e))
     (exec 10 handleEventFunctionDeferred init) =
   Some ([Invoked 4 ViaHandleEvent ThisHandler [Arguments [loadEvent]],
          Invoked 4 ViaApply ThisUndefined [loadEvent]], Some [], None)"
  by code_simp

text \<open>
  C7 (the code departs from it). The host's send should get the caller's arguments
  unchanged. For a synchronous request the polyfix calls \<open>oldXHRSend.call(this)\<close>, with
  no argument at all; for an asynchronous one \<open>oldXHRSend.call(this, arguments)\<close>, with
  the arguments object itself as the body.
\<close>

theorem send_changes_the_body:
  "map_option (\<lambda>(s, e). (hostSends (trace s), e)) (exec 10 sendsWithBody init) =
   Some ([HostSend 1 [], HostSend 2 [Arguments [JStr ''body'']]], None)"
  by code_simp

text \<open>
  C8 (the code departs from it). Reading an \<open>on*\<close> slot should give the handler last
  assigned to that request, and assigning \<open>null\<close> should clear it. The getter returns one
  variable per property name, shared by all requests: after \<open>hA\<close> is assigned to request
  1 and \<open>hB\<close> to request 2, request 1 reads \<open>hB\<close>. Assigning \<open>null\<close> hands the host a
  wrapper around \<open>null\<close>: the slot still fires, and the wrapper raises a TypeError.
\<close>

theorem slot_shared_and_null_not_cleared:
  "map_option (\<lambda>(s, e). (observed (trace s), e)) (exec 10 slotsOfTwoRequests init) =
   Some ([SawHandler (Some hB)], None) \<and>
   map_option (\<lambda>(s, e). (map_of (nativeSlot s) (''load'', 1), invocations (trace s), e))
     (exec 10 slotSetToNull init) =
   Some (Some (HNull, ''onload''), [], Some TypeError)"
  by code_simp

text \<open>
  C9, as stated, fails: a third argument that is an explicit \<open>undefined\<close> classifies the
  request synchronous.
\<close>

theorem open_with_undefined_is_synchronous:
  "1 \<notin> openSyncXHRs init \<and>
   1 \<in> openSyncXHRs (open 1 [JStr ''GET'', JStr ''/u'', Undefined] init)"
  by code_simp

text \<open>
  C9, amended. After \<open>open\<close> on a request not classified synchronous before, the request
  is classified synchronous if and only if the call passed at least three arguments and
  the third is falsy (\<open>false\<close>, and also an explicit \<open>undefined\<close>, \<open>null\<close>, 0 or the
  empty string); with the third argument absent or truthy it stays asynchronous. The
  host's open gets the arguments unchanged.
\<close>

theorem open_classifies_by_falsy_third_argument:
  assumes "x \<notin> openSyncXHRs s"
  shows "(x \<in> openSyncXHRs (open x arguments s)) =
           (2 < length arguments \<and> \<not> truthy (arguments ! 2)) \<and>
         trace (open x arguments s) = trace s @ [HostOpen x arguments]"
  using assms by (simp add: open_def oldXHROpen_def log_def arg_def)

theorem open_classifies_by_falsy_third_argument_witness:
  "1 \<notin> openSyncXHRs init \<and>
   1 \<in> openSyncXHRs (open 1 openSync init) \<and>
   1 \<notin> openSyncXHRs (open 1 openAsync init) \<and>
   1 \<notin> openSyncXHRs (open 1 [JStr ''GET'', JStr ''/u''] init)"
proof -
  have h: "1 \<notin> openSyncXHRs init" by (simp add: init_def)
  from open_classifies_by_falsy_third_argument[OF h, of openSync]
       open_classifies_by_falsy_third_argument[OF h, of openAsync]
       open_classifies_by_falsy_third_argument[OF h, of "[JStr ''GET'', JStr ''/u'']"] h
  show ?thesis by (simp add: openSync_def openAsync_def)
qed

text \<open>
  C10. If a replayed handler raises during a drain, the loop is left at once: the
  closures \<open>prior\<close> before it were called and returned, the raising one \<open>c\<close> was called, and
  the closures \<open>rest\<close> behind it stay in the queue uncalled (they are all the closures
  queued or pushed behind \<open>c\<close>, unless a handler replaced the array by a nested
  synchronous send); the depth is not decremented and \<open>unblockingEvents\<close> stays set.
  From that state on, whatever the page and the host do, \<open>unblockingEvents\<close> stays set
  and no closure is ever shifted from the queue and called again.
\<close>

theorem drain_abandoned_when_handler_raises:
  assumes "mustUnblockEventsNow s" and "\<not> unblockingEvents s"
    and "currentlyBlockedEvents s = Some q"
    and "unblockEventsIfNecessary (exec n) k s = Some (s', Some x)"
  shows "unblockingEvents s' \<and>
         currentlyBlockingOnSyncXHRs s \<le> currentlyBlockingOnSyncXHRs s' \<and>
         (\<exists>prior c rest. replays (newEvents s s') = inOrder prior @ [Unblocking c] \<and>
            currentlyBlockedEvents s' = Some rest \<and>
            subseq (prior @ c # rest) (q @ queued (newEvents s s')) \<and>
            (QueueReset \<notin> set (newEvents s s') \<longrightarrow>
               prior @ c # rest = q @ queued (newEvents s s'))) \<and>
         (\<forall>m script s'' e. exec m script s' = Some (s'', e) \<longrightarrow>
            unblockingEvents s'' \<and> replays (newEvents s' s'') = [])"
proof -
  note u = unblock_drains[OF assms(1-4) quietRunner_exec]
  have later: "unblockingEvents s'' \<and> replays (newEvents s' s'') = []"
    if "exec m script s' = Some (s'', e)" for m script s'' e
    using nothing_replayed_after_a_drain[OF assms(1-4) that] .
  from u obtain cs rest where cr: "currentlyBlockedEvents s' = Some rest"
    "subseq (cs @ rest) (q @ queued (newEvents s s'))"
    "QueueReset \<notin> set (newEvents s s') \<longrightarrow> cs @ rest = q @ queued (newEvents s s')"
    "cs \<noteq> []" "replays (newEvents s s') = butlast (inOrder cs)"
    unfolding drained_def by auto
  from cr(4) obtain prior c where cs: "cs = prior @ [c]" by (cases cs rule: rev_cases) auto
  have "replays (newEvents s s') = inOrder prior @ [Unblocking c]"
    using cr(5) cs by (simp add: inOrder_snoc butlast_append)
  moreover have "subseq (prior @ c # rest) (q @ queued (newEvents s s'))" using cr(2) cs by simp
  moreover have "QueueReset \<notin> set (newEvents s s') \<longrightarrow> prior @ c # rest = q @ queued (newEvents s s')"
    using cr(3) cs by simp
  ultimately have "\<exists>prior c rest. replays (newEvents s s') = inOrder prior @ [Unblocking c] \<and>
            currentlyBlockedEvents s' = Some rest \<and>
            subseq (prior @ c # rest) (q @ queued (newEvents s s')) \<and>
            (QueueReset \<notin> set (newEvents s s') \<longrightarrow>
               prior @ c # rest = q @ queued (newEvents s s'))"
    using cr(1) by blast
  then show ?thesis using u later by simp
qed

theorem drain_abandoned_when_handler_raises_witness:
  "mustUnblockEventsNow dueRaise \<and> \<not> unblockingEvents dueRaise \<and>
   unblockingEvents dueRaise' \<and>
   currentlyBlockingOnSyncXHRs dueRaise \<le> currentlyBlockingOnSyncXHRs dueRaise' \<and>
   replays (newEvents dueRaise dueRaise') = [Unblocking (blocked 2 hRaises [])] \<and>
   currentlyBlockedEvents dueRaise' = Some [PostMessageClosure 0 [JStr ''hi'']] \<and>
   unblockingEvents dueRaise'' \<and>
   queued (newEvents dueRaise' dueRaise'') = [blocked 2 hA []] \<and>
   replays (newEvents dueRaise' dueRaise'') = []"
proof -
  have h1: "mustUnblockEventsNow dueRaise" by code_simp
  have h2: "\<not> unblockingEvents dueRaise" by code_simp
  have h3: "currentlyBlockedEvents dueRaise =
              Some [blocked 2 hRaises [], PostMessageClosure 0 [JStr ''hi'']]"
    by code_simp
  have "map_option snd (unblockEventsIfNecessary (exec 4) 4 dueRaise) = Some (Some (Thrown 7))"
    by code_simp
  then have h4: "unblockEventsIfNecessary (exec 4) 4 dueRaise = Some (dueRaise', Some (Thrown 7))"
    unfolding dueRaise'_def by (rule outcomeI)
  note t = drain_abandoned_when_handler_raises[OF h1 h2 h3 h4]
  have "map_option snd (exec 8 laterRound dueRaise') = Some None"
    unfolding dueRaise'_def by code_simp
  then have h5: "exec 8 laterRound dueRaise' = Some (dueRaise'', None)"
    unfolding dueRaise''_def by (rule outcomeI)
  have later: "unblockingEvents dueRaise'' \<and> replays (newEvents dueRaise' dueRaise'') = []"
    using t h5 by blast
  have seen: "replays (newEvents dueRaise dueRaise') = [Unblocking (blocked 2 hRaises [])]"
    "currentlyBlockedEvents dueRaise' = Some [PostMessageClosure 0 [JStr ''hi'']]"
    unfolding dueRaise'_def by code_simp+
  have pushed: "queued (newEvents dueRaise' dueRaise'') = [blocked 2 hA []]"
    unfolding dueRaise''_def dueRaise'_def by code_simp
  from t later seen pushed h1 h2 show ?thesis by simp
qed

end
